theory Spec2Isabelle
  imports Main "HOL-Library.Word"
begin

unbundle bit_operations_syntax

section \<open>The UTFSet of utfset.c\<close>

text \<open>
  A UTFSet is a 64-ary tree that mirrors the UTF-8 encoding. This theory embeds the
  data structure and the functions \<open>addutf\<close>, \<open>foreach\<close>, \<open>foreach1\<close> and \<open>prunes\<close> of
  \<^verbatim>\<open>utfset.c\<close> and proves the properties the specification states about them.
\<close>

subsection \<open>Data model\<close>

type_synonym byte = "8 word"
type_synonym rune = "32 word"

text \<open>
  \<^verbatim>\<open>union child { struct block *ptr; uint64_t bits; }\<close> and
  \<^verbatim>\<open>struct block { union child blk[64]; }\<close>.
  A child is either a 64-bit bitmask or an owning pointer to a block, which is the list of
  its children. The union stores no tag: the all-zero child is at once the null pointer and
  the empty bitmask, and it is \<open>Bits 0\<close> here. Which member the code reads is fixed by the
  depth of the child; where the code would read a member that the child does not hold (a
  non-zero bitmask as a pointer, a pointer as a bitmask) the C program leaves the tree
  abstraction, and the functions below return \<open>None\<close>.
\<close>

datatype child = Bits "64 word" | Ptr "child list"

type_synonym UTFSet = "child list"

text \<open>\<^verbatim>\<open>UTFSet set = { 0 }\<close>: the empty set, and the block that \<^verbatim>\<open>calloc\<close> returns.\<close>

definition zero_block :: "child list" where
  "zero_block = replicate 64 (Bits 0)"

text \<open>The table \<^verbatim>\<open>clo6\<close>: the number of leading ones of a 6-bit integer.\<close>

definition clo6 :: "nat list" where
  "clo6 =
    [0, 0, 0, 0, 0, 0, 0, 0, 0, 0, 0, 0, 0, 0, 0, 0,
     0, 0, 0, 0, 0, 0, 0, 0, 0, 0, 0, 0, 0, 0, 0, 0,
     1, 1, 1, 1, 1, 1, 1, 1, 1, 1, 1, 1, 1, 1, 1, 1,
     2, 2, 2, 2, 2, 2, 2, 2, 3, 3, 3, 3, 4, 4, 5, 6]"

subsection \<open>Memory: the byte string and the allocator\<close>

text \<open>
  The string \<open>s\<close> is the list of the bytes of the buffer and the cursor is an index into
  it. A read outside the buffer is undefined behaviour in C: it is \<open>None\<close> here.
\<close>

definition rd :: "byte list \<Rightarrow> nat \<Rightarrow> byte option" where
  "rd s i = (if i < length s then Some (s ! i) else None)"

text \<open>
  \<^verbatim>\<open>calloc(1, sizeof *tp->ptr)\<close> may fail. The allocator is the list of the outcomes of
  the calls to come: each call takes the head, \<open>True\<close> is a zeroed block, \<open>False\<close> is a
  null pointer, and an exhausted allocator returns the null pointer.
\<close>

fun calloc :: "bool list \<Rightarrow> child list option \<times> bool list" where
  "calloc [] = (None, [])"
| "calloc (ok # al) = (if ok then (Some zero_block, al) else (None, al))"

subsection \<open>addutf\<close>

text \<open>
  The loop \<^verbatim>\<open>for (; n > 0; n--)\<close> of \<open>addutf\<close> together with the final step, seen from the
  child that \<open>tp\<close> points at. The result is the returned pointer (\<open>None\<close> is \<^verbatim>\<open>NULL\<close>), the
  child after the writes made through \<open>tp\<close>, and the allocator. A block allocated before
  a later \<^verbatim>\<open>calloc\<close> fails stays linked into the tree.
\<close>

fun addutf_walk ::
  "nat \<Rightarrow> child \<Rightarrow> byte list \<Rightarrow> nat \<Rightarrow> bool list \<Rightarrow> (nat option \<times> child \<times> bool list) option"
where
  "addutf_walk 0 tp s i al =
     (case rd s i of
        None \<Rightarrow> None
      | Some b \<Rightarrow>
          (case tp of
             Bits w \<Rightarrow> Some (Some (i + 1), Bits (w OR push_bit (unat b mod 64) 1), al)
           | Ptr blk \<Rightarrow> None))"
| "addutf_walk (Suc n) tp s i al =
     (case (case tp of
              Bits w \<Rightarrow> if w = 0 then Some (calloc al) else None
            | Ptr blk \<Rightarrow> Some (Some blk, al)) of
        None \<Rightarrow> None
      | Some (None, al') \<Rightarrow> Some (None, tp, al')
      | Some (Some blk, al') \<Rightarrow>
          (case rd s i of
             None \<Rightarrow> None
           | Some b \<Rightarrow>
               (let c = unat b mod 64 in
                if c < length blk then
                  (case addutf_walk n (blk ! c) s (i + 1) al' of
                     None \<Rightarrow> None
                   | Some (r, t', al'') \<Rightarrow> Some (r, Ptr (blk[c := t']), al''))
                else None)))"

text \<open>
  \<open>addutf S s i al\<close>: the first byte selects the child of the root and the number \<open>n\<close>
  of bytes before the last one; a continuation byte returns \<^verbatim>\<open>NULL\<close>.
\<close>

definition addutf ::
  "UTFSet \<Rightarrow> byte list \<Rightarrow> nat \<Rightarrow> bool list \<Rightarrow> (nat option \<times> UTFSet \<times> bool list) option"
where
  "addutf S s i al =
     (case rd s i of
        None \<Rightarrow> None
      | Some b \<Rightarrow>
          (if 0xC0 \<le> b then
             (let c = unat b mod 64; n = clo6 ! c in
              if c < length S then
                (case addutf_walk n (S ! c) s (i + 1) al of
                   None \<Rightarrow> None
                 | Some (r, t', al') \<Rightarrow> Some (r, S[c := t'], al'))
              else None)
           else if b < 0x80 then
             (let c = unat b div 64 in
              if c < length S then
                (case addutf_walk 0 (S ! c) s i al of
                   None \<Rightarrow> None
                 | Some (r, t', al') \<Rightarrow> Some (r, S[c := t'], al'))
              else None)
           else Some (None, S, al)))"

subsection \<open>foreach\<close>

text \<open>
  The callback \<^verbatim>\<open>void (*fcn)(char32_t)\<close> acts on a state of its own, of type \<open>'w\<close>;
  \<open>foreach1\<close> and \<open>foreach\<close> thread that state through the calls in the order the code makes
  them. The rune \<open>r\<close> is a \<^verbatim>\<open>char32_t\<close>, so \<^verbatim>\<open>(r * 64) + c\<close> wraps at 32 bits.
\<close>

fun foreach1 :: "child \<Rightarrow> nat \<Rightarrow> rune \<Rightarrow> (rune \<Rightarrow> 'w \<Rightarrow> 'w) \<Rightarrow> 'w \<Rightarrow> 'w option" where
  "foreach1 t 0 r fcn w =
     (case t of
        Bits b \<Rightarrow>
          Some (fold (\<lambda>c w. if b AND push_bit c 1 \<noteq> 0 then fcn (r * 64 + of_nat c) w else w)
                  [0..<64] w)
      | Ptr blk \<Rightarrow> None)"
| "foreach1 t (Suc n) r fcn w =
     (case t of
        Bits b \<Rightarrow> if b = 0 then Some w else None
      | Ptr blk \<Rightarrow>
          if length blk = 64 then
            fold (\<lambda>c wo. case wo of None \<Rightarrow> None
                          | Some w' \<Rightarrow> foreach1 (blk ! c) n (r * 64 + of_nat c) fcn w')
              [0..<64] (Some w)
          else None)"

definition foreach :: "UTFSet \<Rightarrow> (rune \<Rightarrow> 'w \<Rightarrow> 'w) \<Rightarrow> 'w \<Rightarrow> 'w option" where
  "foreach S fcn w =
     (if length S = 64 then
        fold (\<lambda>c wo. case wo of None \<Rightarrow> None
                      | Some w' \<Rightarrow>
                          (let n = clo6 ! c; r = of_nat (c mod drop_bit n 64)
                           in foreach1 (S ! c) n r fcn w'))
          [0..<64] (Some w)
      else None)"

text \<open>The callback that records its arguments, and the sequence of visits of a set.\<close>

definition record_visit :: "rune \<Rightarrow> rune list \<Rightarrow> rune list" where
  "record_visit r out = out @ [r]"

definition visits :: "UTFSet \<Rightarrow> rune list option" where
  "visits S = foreach S record_visit []"

subsection \<open>prunes\<close>

text \<open>
  \<^verbatim>\<open>prune\<close> prints the rune it is passed; the standard output is modelled as the list of
  the runes printed so far.
\<close>

definition prune :: "rune \<Rightarrow> rune list \<Rightarrow> rune list" where
  "prune r out = out @ [r]"

text \<open>
  The loop \<^verbatim>\<open>while (*s != '\0')\<close> of \<open>prunes\<close>. It returns the cursor at the terminating
  zero byte, or \<open>None\<close> as soon as \<open>addutf\<close> returns \<^verbatim>\<open>NULL\<close>.
\<close>

function prunes_loop ::
  "UTFSet \<Rightarrow> byte list \<Rightarrow> nat \<Rightarrow> bool list \<Rightarrow> (nat option \<times> UTFSet \<times> bool list) option"
where
  "prunes_loop S s i al =
     (case rd s i of
        None \<Rightarrow> None
      | Some b \<Rightarrow>
          if b \<noteq> 0 then
            (case addutf S s i al of
               None \<Rightarrow> None
             | Some (None, S', al') \<Rightarrow> Some (None, S', al')
             | Some (Some j, S', al') \<Rightarrow> prunes_loop S' s j al')
          else Some (Some i, S, al))"
  by pat_completeness auto
termination
proof (relation "measure (\<lambda>(S, s, i, al). length s - i)")
  show "wf (measure (\<lambda>(S, s, i, al). length s - i))"
    by simp
next
  fix S :: UTFSet and s :: "byte list" and i :: nat and al :: "bool list"
    and b x p q S' al' j
  assume rd: "rd s i = Some b"
    and call: "addutf S s i al = Some x" "(p, q) = x" "(S', al') = q" "p = Some j"
  have walk: "i' < j'" if "addutf_walk n t s i' a = Some (Some j', t', a')"
    for n t i' a j' t' a'
    using that
  proof (induction n arbitrary: t i' a t' a')
    case 0
    then show ?case
      by (auto split: option.splits child.splits)
  next
    case (Suc n)
    from Suc.prems have "\<exists>u a1 t1 a2. addutf_walk n u s (Suc i') a1 = Some (Some j', t1, a2)"
      by (auto simp: Let_def split: option.splits child.splits if_splits prod.splits)
    then obtain u a1 t1 a2 where "addutf_walk n u s (Suc i') a1 = Some (Some j', t1, a2)"
      by blast
    from Suc.IH [OF this] show ?case
      by simp
  qed
  from rd have "i < length s"
    by (simp add: rd_def split: if_splits)
  moreover from call have "i < j"
    by (auto simp: addutf_def Let_def rd simp del: addutf_walk.simps dest!: walk
        split: option.splits if_splits prod.splits)
  ultimately show "((S', s, j, al'), (S, s, i, al)) \<in> measure (\<lambda>(S, s, i, al). length s - i)"
    by simp
qed

text \<open>
  \<open>prunes s al\<close>: the return value of \<^verbatim>\<open>prunes\<close> (0 or -1) and what it printed.
\<close>

definition prunes :: "byte list \<Rightarrow> bool list \<Rightarrow> (int \<times> rune list) option" where
  "prunes s al =
     (case prunes_loop zero_block s 0 al of
        None \<Rightarrow> None
      | Some (None, S, al') \<Rightarrow> Some (- 1, [])
      | Some (Some j, S, al') \<Rightarrow>
          (case foreach S prune [] of
             None \<Rightarrow> None
           | Some out \<Rightarrow> Some (0, out)))"

subsection \<open>The UTF-8 encoding\<close>

text \<open>
  The shortest UTF-8 encoding of a rune: one to four bytes up to U+10FFFF (RFC 3629), and
  the five- and six-byte forms of the original definition up to \<open>2^31 - 1\<close>. A byte sequence
  is a valid, non-overlong encoding of \<open>r\<close> exactly when it is \<open>utf8_encode r\<close>.
\<close>

definition cont :: "nat \<Rightarrow> byte" where
  "cont x = of_nat (0x80 + x mod 64)"

definition utf8_encode :: "rune \<Rightarrow> byte list" where
  "utf8_encode r =
     (let x = unat r in
      if x < 0x80 then [of_nat x]
      else if x < 0x800 then [of_nat (0xC0 + x div 64), cont x]
      else if x < 0x10000 then [of_nat (0xE0 + x div 4096), cont (x div 64), cont x]
      else if x < 0x200000 then
        [of_nat (0xF0 + x div 262144), cont (x div 4096), cont (x div 64), cont x]
      else if x < 0x4000000 then
        [of_nat (0xF8 + x div 16777216), cont (x div 262144), cont (x div 4096),
         cont (x div 64), cont x]
      else
        [of_nat (0xFC + x div 1073741824), cont (x div 16777216), cont (x div 262144),
         cont (x div 4096), cont (x div 64), cont x])"

subsection \<open>The shape of the tree and its members\<close>

text \<open>
  \<open>shape n t\<close>: the child \<open>t\<close> is the root of a subtree with \<open>n\<close> levels of blocks above
  the bitmasks. A set is well formed when the child \<open>c\<close> of the root has the shape that
  \<open>clo6\<close> gives for \<open>c\<close>.
\<close>

fun shape :: "nat \<Rightarrow> child \<Rightarrow> bool" where
  "shape 0 (Bits w) = True"
| "shape 0 (Ptr blk) = False"
| "shape (Suc n) (Bits w) = (w = 0)"
| "shape (Suc n) (Ptr blk) = (length blk = 64 \<and> list_all (shape n) blk)"

definition wf_set :: "UTFSet \<Rightarrow> bool" where
  "wf_set S = list_all2 shape clo6 S"

text \<open>
  The members below a child, as unbounded numbers, in the order of the traversal:
  \<open>p\<close> is the value of the bits read so far.
\<close>

fun elems :: "nat \<Rightarrow> child \<Rightarrow> nat \<Rightarrow> nat list" where
  "elems 0 (Bits w) p = map (\<lambda>c. p * 64 + c) (filter (bit w) [0..<64])"
| "elems 0 (Ptr blk) p = []"
| "elems (Suc n) (Bits w) p = []"
| "elems (Suc n) (Ptr blk) p = concat (map (\<lambda>c. elems n (blk ! c) (p * 64 + c)) [0..<64])"

definition root_elems :: "UTFSet \<Rightarrow> nat \<Rightarrow> nat list" where
  "root_elems S c = elems (clo6 ! c) (S ! c) (c mod drop_bit (clo6 ! c) 64)"

definition members :: "UTFSet \<Rightarrow> nat list" where
  "members S = concat (map (root_elems S) [0..<64])"

text \<open>The value of the \<open>n + 1\<close> six-bit groups that \<open>addutf_walk n\<close> reads from cursor \<open>i\<close>.\<close>

fun payload :: "nat \<Rightarrow> byte list \<Rightarrow> nat \<Rightarrow> nat" where
  "payload 0 s i = unat (s ! i) mod 64"
| "payload (Suc n) s i = (unat (s ! i) mod 64) * 64 ^ Suc n + payload n s (i + 1)"

text \<open>
  What \<open>addutf\<close> makes of the bytes at a cursor: the index of the child of the root that the
  first byte selects, the number of bytes consumed, and the number that becomes a member.
\<close>

definition lead_ix :: "byte \<Rightarrow> nat" where
  "lead_ix b = (if 0xC0 \<le> b then unat b mod 64 else unat b div 64)"

definition enc_len :: "byte \<Rightarrow> nat" where
  "enc_len b = (if 0xC0 \<le> b then clo6 ! (unat b mod 64) + 2 else 1)"

definition rune_at :: "byte list \<Rightarrow> nat \<Rightarrow> nat" where
  "rune_at s i =
     (let b = s ! i; c = lead_ix b; n = clo6 ! c
      in (c mod drop_bit n 64) * 64 ^ Suc n + payload n s (if 0xC0 \<le> b then i + 1 else i))"

text \<open>
  The least number that a non-overlong encoding can store below the child \<open>c\<close> of the root;
  \<open>bound (Suc c)\<close> is the least number beyond it. A set is canonical when every member lies
  within the bounds of its child of the root.
\<close>

definition bound :: "nat \<Rightarrow> nat" where
  "bound c =
     (if c \<le> 32 then c * 64
      else if c \<le> 48 then (c - 32) * 4096
      else if c \<le> 56 then (c - 48) * 262144
      else if c \<le> 60 then (c - 56) * 16777216
      else if c = 61 then 1073741824
      else 2147483648)"

definition canonical :: "UTFSet \<Rightarrow> bool" where
  "canonical S =
     (wf_set S \<and>
      list_all (\<lambda>c. list_all (\<lambda>x. bound c \<le> x \<and> x < bound (Suc c)) (root_elems S c)) [0..<64])"

subsection \<open>Drivers and notions of the specification\<close>

text \<open>
  \<open>addutf_n k\<close> calls \<open>addutf\<close> \<open>k\<close> times on one buffer, each call starting where the
  previous one ended, and stops at the first \<^verbatim>\<open>NULL\<close>: the loop of \<open>prunes\<close> without the test
  for the terminating zero byte.
\<close>

fun addutf_n ::
  "nat \<Rightarrow> UTFSet \<Rightarrow> byte list \<Rightarrow> nat \<Rightarrow> bool list \<Rightarrow> (nat option \<times> UTFSet \<times> bool list) option"
where
  "addutf_n 0 S s i al = Some (Some i, S, al)"
| "addutf_n (Suc k) S s i al =
     (case addutf S s i al of
        None \<Rightarrow> None
      | Some (None, S', al') \<Rightarrow> Some (None, S', al')
      | Some (Some j, S', al') \<Rightarrow> addutf_n k S' s j al')"

text \<open>
  A sequence of independent successful calls of \<open>addutf\<close>, each on the non-overlong encoding
  of a rune \<open>r\<close> that sits in a buffer of its own between \<open>pre\<close> and \<open>post\<close>, with the
  allocator in a state of its own. The result is \<open>None\<close> unless every call returns a cursor.
\<close>

fun insert_calls ::
  "(byte list \<times> rune \<times> byte list \<times> bool list) list \<Rightarrow> UTFSet \<Rightarrow> UTFSet option"
where
  "insert_calls [] S = Some S"
| "insert_calls ((pre, r, post, al) # cs) S =
     (case addutf S (pre @ utf8_encode r @ post) (length pre) al of
        Some (Some j, S', al') \<Rightarrow> insert_calls cs S'
      | _ \<Rightarrow> None)"

text \<open>
  The number of blocks on the path of a rune below the root: what inserting it into an
  empty set allocates.
\<close>

definition blocks_needed :: "rune \<Rightarrow> nat" where
  "blocks_needed r = length (utf8_encode r) - 2"

text \<open>The next \<open>n\<close> calls of \<^verbatim>\<open>calloc\<close> succeed.\<close>

definition plenty :: "nat \<Rightarrow> bool list \<Rightarrow> bool" where
  "plenty n al = (n \<le> length al \<and> list_all (\<lambda>ok. ok) (take n al))"

text \<open>
  A call of \<^verbatim>\<open>calloc\<close> failed on the way from the allocator \<open>al\<close> to \<open>al'\<close>: after the
  successful calls the allocator was exhausted, or its next outcome was a failure.
\<close>

definition alloc_failed :: "bool list \<Rightarrow> bool list \<Rightarrow> bool" where
  "alloc_failed al al' = (case dropWhile (\<lambda>ok. ok) al of [] \<Rightarrow> al' = [] | ok # rest \<Rightarrow> al' = rest)"

text \<open>The number of leading one-bits of the low six bits of \<open>c\<close>, counted from bit 5 down.\<close>

definition leading_ones6 :: "nat \<Rightarrow> nat" where
  "leading_ones6 c = length (takeWhile (bit c) [5, 4, 3, 2, 1, 0])"

subsection \<open>foreach on the memory of the machine\<close>

text \<open>
  To state what \<open>foreach\<close> does to the memory, \<open>foreach\<close> and \<open>foreach1\<close> are embedded a
  second time, on the state of the machine. A \<^verbatim>\<open>union child\<close> is the 64-bit word that the
  memory holds for it: \<^verbatim>\<open>.bits\<close> reads the word as it is, \<^verbatim>\<open>.ptr\<close> reads it as an address, and
  the null pointer is 0. The memory maps the address of a \<^verbatim>\<open>struct block\<close> to its 64
  children; dereferencing an address that holds no block is undefined behaviour, \<open>None\<close>.
  The state of the machine is the memory, the allocator and whatever else the callback
  keeps. The callback is any code: it gets the whole state of the machine and returns it.
\<close>

record 'w machine =
  memory :: "64 word \<Rightarrow> 64 word list option"
  allocator :: "bool list"
  world :: 'w

text \<open>
  \<open>foreach1_mem t n r fcn\<close>: the child \<open>t\<close> is passed by value; the block behind
  \<^verbatim>\<open>t.ptr\<close> is read from the memory in every round of the loop, as
  \<^verbatim>\<open>t.ptr->blk[c]\<close> is.
\<close>

fun foreach1_mem ::
  "64 word \<Rightarrow> nat \<Rightarrow> rune \<Rightarrow> (rune \<Rightarrow> 'w machine \<Rightarrow> 'w machine) \<Rightarrow> 'w machine
     \<Rightarrow> 'w machine option"
where
  "foreach1_mem t 0 r fcn \<sigma> =
     Some (fold (\<lambda>c \<sigma>'. if t AND push_bit c 1 \<noteq> 0 then fcn (r * 64 + of_nat c) \<sigma>' else \<sigma>')
             [0..<64] \<sigma>)"
| "foreach1_mem t (Suc n) r fcn \<sigma> =
     (if t \<noteq> 0 then
        fold (\<lambda>c \<sigma>o. case \<sigma>o of None \<Rightarrow> None
                      | Some \<sigma>' \<Rightarrow>
                          (case memory \<sigma>' t of
                             None \<Rightarrow> None
                           | Some blk \<Rightarrow>
                               if length blk = 64 then
                                 foreach1_mem (blk ! c) n (r * 64 + of_nat c) fcn \<sigma>'
                               else None))
          [0..<64] (Some \<sigma>)
      else Some \<sigma>)"

text \<open>
  \<open>foreach_mem set fcn\<close>: \<open>set\<close> is the pointer to the root block, and
  \<^verbatim>\<open>set->blk[c]\<close> is read from the memory in every round.
\<close>

definition foreach_mem ::
  "64 word \<Rightarrow> (rune \<Rightarrow> 'w machine \<Rightarrow> 'w machine) \<Rightarrow> 'w machine \<Rightarrow> 'w machine option"
where
  "foreach_mem set_ptr fcn \<sigma> =
     fold (\<lambda>c \<sigma>o. case \<sigma>o of None \<Rightarrow> None
                   | Some \<sigma>' \<Rightarrow>
                       (case memory \<sigma>' set_ptr of
                          None \<Rightarrow> None
                        | Some blk \<Rightarrow>
                            if length blk = 64 then
                              (let n = clo6 ! c; r = of_nat (c mod drop_bit n 64)
                               in foreach1_mem (blk ! c) n r fcn \<sigma>')
                            else None))
       [0..<64] (Some \<sigma>)"

text \<open>
  The memory holds the tree: the word \<open>w\<close> is, at \<open>n\<close> levels above the bitmasks, the child
  \<open>t\<close> of the data model; and the block at the address \<open>a\<close> is the root of the set \<open>S\<close>.
\<close>

fun repr :: "(64 word \<Rightarrow> 64 word list option) \<Rightarrow> nat \<Rightarrow> 64 word \<Rightarrow> child \<Rightarrow> bool" where
  "repr m 0 w t = (t = Bits w)"
| "repr m (Suc n) w t =
     (if w = 0 then t = Bits 0
      else (case m w of
              None \<Rightarrow> False
            | Some bw \<Rightarrow>
                (case t of
                   Bits b \<Rightarrow> False
                 | Ptr blk \<Rightarrow> length bw = 64 \<and> list_all2 (repr m n) bw blk)))"

definition repr_set :: "(64 word \<Rightarrow> 64 word list option) \<Rightarrow> 64 word \<Rightarrow> UTFSet \<Rightarrow> bool" where
  "repr_set m a S =
     (case m a of
        None \<Rightarrow> False
      | Some bw \<Rightarrow>
          length bw = 64 \<and> length S = 64
          \<and> list_all (\<lambda>c. repr m (clo6 ! c) (bw ! c) (S ! c)) [0..<64])"

text \<open>
  A layout of a tree of the data model in the memory, to show that every well-formed set is
  held by some memory. The block reached from the root by the path \<open>p\<close> of child indices
  lies at the address \<open>enc_path p\<close>, the digits of \<open>p\<close> in base 64 behind a leading 1; the
  root block lies at the address 1. \<open>node S p\<close> is that block, \<open>slot_word p c t\<close> the word
  that the block at \<open>p\<close> holds for its child \<open>c\<close>, which is \<open>t\<close> in the data model.
\<close>

fun node :: "child list \<Rightarrow> nat list \<Rightarrow> child list option" where
  "node blk [] = Some blk"
| "node blk (c # p) =
     (if c < length blk then (case blk ! c of Bits w \<Rightarrow> None | Ptr b \<Rightarrow> node b p) else None)"

definition enc_path :: "nat list \<Rightarrow> nat" where
  "enc_path p = foldl (\<lambda>a c. a * 64 + c) 1 p"

function dec_path :: "nat \<Rightarrow> nat list" where
  "dec_path a = (if a < 64 then [] else dec_path (a div 64) @ [a mod 64])"
  by pat_completeness auto
termination
  by (relation "measure (\<lambda>a. a)") auto

fun slot_word :: "nat list \<Rightarrow> nat \<Rightarrow> child \<Rightarrow> 64 word" where
  "slot_word p c (Bits w) = w"
| "slot_word p c (Ptr b) = of_nat (enc_path (p @ [c]))"

definition tree_memory :: "UTFSet \<Rightarrow> 64 word \<Rightarrow> 64 word list option" where
  "tree_memory S a =
     (if a = 0 then None
      else (case node S (dec_path (unat a)) of
              None \<Rightarrow> None
            | Some blk \<Rightarrow> Some (map (\<lambda>c. slot_word (dec_path (unat a)) c (blk ! c)) [0..<64])))"

text \<open>
  An example: a memory that holds the set of U+0041 and U+20AC with its root block at the
  address \<open>0x1000\<close> and the one block below child 34 of the root at \<open>0x2000\<close>, and the
  same set in the data model.
\<close>

definition example_memory :: "64 word \<Rightarrow> 64 word list option" where
  "example_memory =
     (\<lambda>a. if a = 0x1000 then Some ((replicate 64 0)[1 := 2, 34 := 0x2000])
          else if a = 0x2000 then Some ((replicate 64 0)[2 := 0x100000000000])
          else None)"

definition example_set :: UTFSet where
  "example_set = zero_block[1 := Bits 2, 34 := Ptr (zero_block[2 := Bits 0x100000000000])]"

section \<open>Properties\<close>

subsection \<open>Auxiliary facts\<close>

lemma length_clo6: "length clo6 = 64"
  by (simp add: clo6_def)

lemma clo6_all:
  "list_all (\<lambda>c. clo6 ! c = (if c < 32 then 0 else if c < 48 then 1 else if c < 56 then 2
      else if c < 60 then 3 else if c < 62 then 4 else if c < 63 then 5 else 6)) [0..<64]"
  by code_simp

lemma clo6_nth:
  "c < 64 \<Longrightarrow> clo6 ! c = (if c < 32 then 0 else if c < 48 then 1 else if c < 56 then 2
      else if c < 60 then 3 else if c < 62 then 4 else if c < 63 then 5 else 6)"
  using clo6_all by (simp add: list_all_iff)

lemma fold_visit_filter:
  "fold (\<lambda>c w. if P c then fcn (g c) w else w) cs w = fold fcn (map g (filter P cs)) w"
  by (induction cs arbitrary: w) auto

lemma fold_option_concat:
  assumes "\<And>c w. c \<in> set cs \<Longrightarrow> F c w = Some (fold fcn (E c) w)"
  shows "fold (\<lambda>c wo. case wo of None \<Rightarrow> None | Some w' \<Rightarrow> F c w') cs (Some w)
         = Some (fold fcn (concat (map E cs)) w)"
  using assms by (induction cs arbitrary: w) auto

lemma bit_test: "(b AND push_bit c 1 \<noteq> 0) = bit (b :: 64 word) c"
  by (simp add: and_exp_eq_0_iff_not_bit)

lemma foreach1_elems:
  "shape n t \<Longrightarrow>
   foreach1 t n (of_nat p) fcn w = Some (fold fcn (map of_nat (elems n t p)) w)"
proof (induction n arbitrary: t p w)
  case 0
  then obtain b where t: "t = Bits b" by (cases t) auto
  have "fold (\<lambda>c w. if b AND push_bit c 1 \<noteq> 0 then fcn (of_nat p * 64 + of_nat c) w else w) [0..<64] w
      = fold (\<lambda>c w. if bit b c then fcn (of_nat p * 64 + of_nat c) w else w) [0..<64] w"
    by (simp only: bit_test)
  then show ?case
    using fold_visit_filter [of "bit b" fcn "\<lambda>c. of_nat p * 64 + of_nat c" "[0..<64]" w]
    by (simp add: t comp_def)
next
  case (Suc n)
  show ?case
  proof (cases t)
    case (Bits b)
    with Suc.prems show ?thesis by simp
  next
    case (Ptr blk)
    with Suc.prems have len: "length blk = 64" and sh: "\<And>c. c < 64 \<Longrightarrow> shape n (blk ! c)"
      by (auto simp: list_all_length)
    have step: "foreach1 (blk ! c) n (of_nat p * 64 + of_nat c) fcn w'
        = Some (fold fcn (map of_nat (elems n (blk ! c) (p * 64 + c))) w')" if "c < 64" for c w'
      using Suc.IH [OF sh [OF that], of "p * 64 + c" w'] by simp
    have "fold (\<lambda>c wo. case wo of None \<Rightarrow> None
              | Some w' \<Rightarrow> foreach1 (blk ! c) n (of_nat p * 64 + of_nat c) fcn w') [0..<64] (Some w)
        = Some (fold fcn (concat (map (\<lambda>c. map of_nat (elems n (blk ! c) (p * 64 + c))) [0..<64])) w)"
      by (rule fold_option_concat) (simp add: step)
    then show ?thesis
      by (simp add: Ptr len map_concat comp_def)
  qed
qed


lemma wf_set_length: "wf_set S \<Longrightarrow> length S = 64"
  by (auto simp: wf_set_def length_clo6 dest: list_all2_lengthD)

lemma wf_set_shape: "wf_set S \<Longrightarrow> c < 64 \<Longrightarrow> shape (clo6 ! c) (S ! c)"
  by (auto simp: wf_set_def length_clo6 dest: list_all2_nthD)

lemma wf_setI:
  "length S = 64 \<Longrightarrow> (\<And>c. c < 64 \<Longrightarrow> shape (clo6 ! c) (S ! c)) \<Longrightarrow> wf_set S"
  by (simp add: wf_set_def list_all2_conv_all_nth length_clo6)

lemma foreach_members:
  assumes "wf_set S"
  shows "foreach S fcn w = Some (fold fcn (map of_nat (members S)) w)"
proof -
  have "fold (\<lambda>c wo. case wo of None \<Rightarrow> None
            | Some w' \<Rightarrow> foreach1 (S ! c) (clo6 ! c) (of_nat (c mod drop_bit (clo6 ! c) 64)) fcn w')
          [0..<64] (Some w)
      = Some (fold fcn (concat (map (\<lambda>c. map of_nat (root_elems S c)) [0..<64])) w)"
    by (rule fold_option_concat)
      (simp add: root_elems_def foreach1_elems wf_set_shape [OF assms])
  then show ?thesis
    by (simp add: foreach_def Let_def wf_set_length [OF assms] members_def map_concat comp_def)
qed

lemma fold_record_visit: "fold record_visit xs ys = ys @ xs"
  by (induction xs arbitrary: ys) (auto simp: record_visit_def)

lemma visits_members: "wf_set S \<Longrightarrow> visits S = Some (map of_nat (members S))"
  by (simp add: visits_def foreach_members fold_record_visit)

lemma elems_zero: "elems n (Bits 0) p = []"
  by (cases n) simp_all

lemma shape_zero: "shape n (Bits 0)"
  by (cases n) simp_all

lemma shape_zero_block: "shape (Suc n) (Ptr zero_block)"
  by (simp add: zero_block_def list_all_length shape_zero)

lemma wf_zero_block: "wf_set zero_block"
  by (rule wf_setI) (simp_all add: zero_block_def shape_zero)

lemma sorted_concat_ranges:
  fixes f :: "nat \<Rightarrow> nat list" and g :: "nat \<Rightarrow> nat"
  assumes "\<And>c. c < m \<Longrightarrow> sorted_wrt (<) (f c)"
    and "\<And>c x. c < m \<Longrightarrow> x \<in> set (f c) \<Longrightarrow> g c \<le> x \<and> x < g (Suc c)"
    and "\<And>c. c < m \<Longrightarrow> g c \<le> g (Suc c)"
  shows "sorted_wrt (<) (concat (map f [0..<m]))
       \<and> (\<forall>x\<in>set (concat (map f [0..<m])). g 0 \<le> x \<and> x < g m)"
  using assms
proof (induction m)
  case 0
  then show ?case by simp
next
  case (Suc m)
  have "sorted_wrt (<) (concat (map f [0..<m]))
       \<and> (\<forall>x\<in>set (concat (map f [0..<m])). g 0 \<le> x \<and> x < g m)"
    by (rule Suc.IH; simp add: Suc.prems less_SucI)
  then have IH: "sorted_wrt (<) (concat (map f [0..<m]))"
    "\<And>x. x \<in> set (concat (map f [0..<m])) \<Longrightarrow> g 0 \<le> x \<and> x < g m"
    by blast+
  have g0: "g 0 \<le> g m"
    using Suc.prems(3) by (induction m) (auto simp: less_Suc_eq intro: order_trans)
  have last: "sorted_wrt (<) (f m)" "\<And>x. x \<in> set (f m) \<Longrightarrow> g m \<le> x \<and> x < g (Suc m)"
    "g m \<le> g (Suc m)"
    using Suc.prems by simp_all
  show ?case
    using IH last g0 by (fastforce simp: sorted_wrt_append)
qed

lemma elems_sorted_range:
  "shape n t \<Longrightarrow>
   sorted_wrt (<) (elems n t p)
   \<and> (\<forall>x\<in>set (elems n t p). p * 64 ^ Suc n \<le> x \<and> x < Suc p * 64 ^ Suc n)"
proof (induction n arbitrary: t p)
  case 0
  then obtain b where t: "t = Bits b" by (cases t) auto
  have "sorted_wrt (<) (filter (bit b) [0..<64])"
    by (rule sorted_wrt_filter) simp
  then have "sorted_wrt (<) (map (\<lambda>c. p * 64 + c) (filter (bit b) [0..<64]))"
    by (simp add: sorted_wrt_map)
  then show ?case
    by (auto simp: t)
next
  case (Suc n)
  show ?case
  proof (cases t)
    case (Bits b)
    then show ?thesis by simp
  next
    case (Ptr blk)
    with Suc.prems have sh: "\<And>c. c < 64 \<Longrightarrow> shape n (blk ! c)"
      by (auto simp: list_all_length)
    let ?f = "\<lambda>c. elems n (blk ! c) (p * 64 + c)"
    let ?g = "\<lambda>c. (p * 64 + c) * 64 ^ Suc n"
    have "sorted_wrt (<) (concat (map ?f [0..<64]))
       \<and> (\<forall>x\<in>set (concat (map ?f [0..<64])). ?g 0 \<le> x \<and> x < ?g 64)"
      by (rule sorted_concat_ranges) (use Suc.IH [OF sh] in auto)
    then show ?thesis
      by (simp add: Ptr algebra_simps)
  qed
qed


lemma elems_zero_block: "elems (Suc n) (Ptr zero_block) p = []"
  by (simp add: zero_block_def elems_zero)

lemma walk_descend:
  assumes "(case rd s i of
        None \<Rightarrow> None
      | Some b \<Rightarrow>
          (let c = unat b mod 64 in
           if c < length blk then
             (case addutf_walk n (blk ! c) s (i + 1) al1 of
                None \<Rightarrow> None
              | Some (r, t', al'') \<Rightarrow> Some (r, Ptr (blk[c := t']), al''))
           else None)) = Some (r, t', al')"
  shows "\<exists>tc. i < length s
      \<and> addutf_walk n (blk ! (unat (s ! i) mod 64)) s (i + 1) al1 = Some (r, tc, al')
      \<and> t' = Ptr (blk[unat (s ! i) mod 64 := tc])"
  using assms
  by (auto simp: rd_def Let_def split: option.splits if_splits prod.splits)

lemma walk_Suc_cases:
  assumes "addutf_walk (Suc n) t s i al = Some (r, t', al')" and "shape (Suc n) t"
  obtains (oom) "t = Bits 0" "r = None" "t' = t" "calloc al = (None, al')"
  | (down) blk al1 tc where "shape (Suc n) (Ptr blk)"
      "\<And>p. elems (Suc n) (Ptr blk) p = elems (Suc n) t p"
      "i < length s" "unat (s ! i) mod 64 < 64"
      "addutf_walk n (blk ! (unat (s ! i) mod 64)) s (i + 1) al1 = Some (r, tc, al')"
      "t' = Ptr (blk[unat (s ! i) mod 64 := tc])"
      "t = Bits 0 \<and> calloc al = (Some blk, al1) \<or> t = Ptr blk \<and> al1 = al"
proof (cases t)
  case (Bits w)
  with assms(2) have w: "w = 0" by simp
  show ?thesis
  proof (cases "calloc al")
    case (Pair ob al1)
    show ?thesis
    proof (cases ob)
      case None
      with assms(1) Bits w Pair show ?thesis
        by (intro oom) auto
    next
      case (Some blk)
      with Pair have blk: "blk = zero_block"
        by (cases al) (auto split: if_splits)
      from assms(1) Bits w Pair Some obtain tc where "i < length s"
        "addutf_walk n (blk ! (unat (s ! i) mod 64)) s (i + 1) al1 = Some (r, tc, al')"
        "t' = Ptr (blk[unat (s ! i) mod 64 := tc])"
        using walk_descend [where s = s and i = i and blk = blk and n = n and ?al1.0 = al1]
        by auto
      with Bits w Pair Some show ?thesis
        by (intro down [of blk al1 tc])
          (simp_all add: blk shape_zero_block elems_zero_block elems_zero
            del: shape.simps elems.simps)
    qed
  qed
next
  case (Ptr blk)
  with assms(1) obtain tc where "i < length s"
    "addutf_walk n (blk ! (unat (s ! i) mod 64)) s (i + 1) al = Some (r, tc, al')"
    "t' = Ptr (blk[unat (s ! i) mod 64 := tc])"
    using walk_descend [where s = s and i = i and blk = blk and n = n and ?al1.0 = al]
    by auto
  with Ptr assms(2) show ?thesis
    by (intro down [of blk al tc]) (simp_all del: shape.simps elems.simps)
qed

lemma shape_update:
  "shape (Suc n) (Ptr blk) \<Longrightarrow> shape n tc \<Longrightarrow> shape (Suc n) (Ptr (blk[c := tc]))"
  by (cases "c < length blk") (auto simp: list_all_length nth_list_update)

lemma elems_update_set:
  assumes "c < 64" "length blk = 64"
    and "set (elems n tc (p * 64 + c)) = insert x (set (elems n (blk ! c) (p * 64 + c)))"
  shows "set (elems (Suc n) (Ptr (blk[c := tc])) p) = insert x (set (elems (Suc n) (Ptr blk) p))"
proof -
  have "(\<Union>k\<in>{0..<64}. set (elems n (blk[c := tc] ! k) (p * 64 + k)))
      = insert x (\<Union>k\<in>{0..<64}. set (elems n (blk ! k) (p * 64 + k)))" (is "?L = ?R")
  proof (intro set_eqI iffI)
    fix y assume "y \<in> ?L"
    then obtain k where "k < 64" "y \<in> set (elems n (blk[c := tc] ! k) (p * 64 + k))"
      by auto
    with assms show "y \<in> ?R"
      by (cases "k = c") (auto simp: nth_list_update)
  next
    fix y assume "y \<in> ?R"
    then consider "y = x" | k where "k < 64" "y \<in> set (elems n (blk ! k) (p * 64 + k))"
      by auto
    then show "y \<in> ?L"
    proof cases
      case 1
      with assms have "y \<in> set (elems n (blk[c := tc] ! c) (p * 64 + c))" by simp
      with assms(1) show ?thesis by (auto intro!: bexI [of _ c])
    next
      case 2
      with assms have "y \<in> set (elems n (blk[c := tc] ! k) (p * 64 + k))"
        by (cases "k = c") (auto simp: nth_list_update)
      with 2 show ?thesis by (auto intro!: bexI [of _ k])
    qed
  qed
  then show ?thesis by simp
qed

lemma elems_update_eq:
  assumes "c < 64" "length blk = 64"
    and "elems n tc (p * 64 + c) = elems n (blk ! c) (p * 64 + c)"
  shows "elems (Suc n) (Ptr (blk[c := tc])) p = elems (Suc n) (Ptr blk) p"
proof -
  have "map (\<lambda>k. elems n (blk[c := tc] ! k) (p * 64 + k)) [0..<64]
      = map (\<lambda>k. elems n (blk ! k) (p * 64 + k)) [0..<64]"
    using assms by (intro map_cong) (auto simp: nth_list_update)
  then show ?thesis by (simp only: elems.simps)
qed

lemma bit_set_bit: "c < 64 \<Longrightarrow> bit ((w :: 64 word) OR 2 ^ c) k \<longleftrightarrow> bit w k \<or> k = c"
  by (auto simp: bit_or_iff bit_exp_iff)

lemma walk_success:
  "shape n t \<Longrightarrow> addutf_walk n t s i al = Some (Some j, t', al') \<Longrightarrow>
   shape n t' \<and> j = i + n + 1 \<and> i + n < length s
   \<and> set (elems n t' p) = insert (p * 64 ^ Suc n + payload n s i) (set (elems n t p))"
proof (induction n arbitrary: t i al t' al' p)
  case 0
  then obtain w where t: "t = Bits w" by (cases t) auto
  with "0.prems" have i: "i < length s"
    and t': "t' = Bits (w OR push_bit (unat (s ! i) mod 64) 1)" and j: "j = i + 1"
    by (auto simp: rd_def split: if_splits)
  have "set (filter (bit (w OR push_bit (unat (s ! i) mod 64) 1)) [0..<64])
      = insert (unat (s ! i) mod 64) (set (filter (bit w) [0..<64]))"
    by (auto simp: bit_set_bit)
  then show ?case
    by (simp add: t t' i j)
next
  case (Suc n)
  from Suc.prems(2,1) show ?case
  proof (cases rule: walk_Suc_cases)
    case oom
    then show ?thesis by simp
  next
    case (down blk al1 tc)
    let ?c = "unat (s ! i) mod 64"
    from down(1) have len: "length blk = 64" and shc: "shape n (blk ! ?c)"
      by (auto simp: list_all_length)
    note IH = Suc.IH [OF shc down(5), of "p * 64 + ?c"]
    have "set (elems (Suc n) (Ptr (blk[?c := tc])) p)
        = insert ((p * 64 + ?c) * 64 ^ Suc n + payload n s (i + 1)) (set (elems (Suc n) (Ptr blk) p))"
      by (rule elems_update_set) (use IH len in auto)
    moreover have "(p * 64 + ?c) * 64 ^ Suc n + payload n s (i + 1)
        = p * 64 ^ Suc (Suc n) + payload (Suc n) s i"
      by (simp add: algebra_simps)
    ultimately show ?thesis
      using IH down shape_update [OF down(1), of tc ?c]
      by (simp del: shape.simps elems.simps payload.simps)
  qed
qed

lemma walk_failure:
  "shape n t \<Longrightarrow> addutf_walk n t s i al = Some (None, t', al') \<Longrightarrow>
   shape n t' \<and> elems n t' p = elems n t p"
proof (induction n arbitrary: t i al t' al' p)
  case 0
  then show ?case
    by (auto simp: rd_def split: if_splits child.splits)
next
  case (Suc n)
  from Suc.prems(2,1) show ?case
  proof (cases rule: walk_Suc_cases)
    case oom
    with Suc.prems show ?thesis by simp
  next
    case (down blk al1 tc)
    let ?c = "unat (s ! i) mod 64"
    from down(1) have len: "length blk = 64" and shc: "shape n (blk ! ?c)"
      by (auto simp: list_all_length)
    note IH = Suc.IH [OF shc down(5), of "p * 64 + ?c"]
    have "elems (Suc n) (Ptr (blk[?c := tc])) p = elems (Suc n) (Ptr blk) p"
      by (rule elems_update_eq) (use IH len in auto)
    then show ?thesis
      using IH down shape_update [OF down(1), of tc ?c]
      by (simp del: shape.simps elems.simps)
  qed
qed


lemma lead_ix_less: "\<not> (0x80 \<le> b \<and> b < 0xC0) \<Longrightarrow> lead_ix b < 64"
  by (auto simp: lead_ix_def word_less_nat_alt word_le_nat_alt)

lemma root_elems_update:
  "c < length S \<Longrightarrow>
   root_elems (S[c := t]) k
     = (if k = c then elems (clo6 ! c) t (c mod drop_bit (clo6 ! c) 64) else root_elems S k)"
  by (simp add: root_elems_def)

lemma set_members: "set (members S) = (\<Union>c\<in>{0..<64}. set (root_elems S c))"
  by (simp add: members_def)

lemma wf_set_update:
  "wf_set S \<Longrightarrow> c < 64 \<Longrightarrow> shape (clo6 ! c) t \<Longrightarrow> wf_set (S[c := t])"
  by (rule wf_setI) (auto simp: wf_set_length wf_set_shape nth_list_update)

lemma addutf_cases:
  assumes "addutf S s i al = Some (r, S', al')"
  obtains (malformed) "i < length s" "0x80 \<le> s ! i" "s ! i < 0xC0" "r = None" "S' = S" "al' = al"
  | (walk) t' where "i < length s" "\<not> (0x80 \<le> s ! i \<and> s ! i < 0xC0)"
      "addutf_walk (clo6 ! lead_ix (s ! i)) (S ! lead_ix (s ! i)) s
         (if 0xC0 \<le> s ! i then i + 1 else i) al = Some (r, t', al')"
      "S' = S[lead_ix (s ! i) := t']"
proof -
  from assms have i: "i < length s"
    by (auto simp: addutf_def rd_def split: if_splits)
  consider (lead) "0xC0 \<le> s ! i" | (ascii) "\<not> 0xC0 \<le> s ! i" "s ! i < 0x80"
    | (cont) "\<not> 0xC0 \<le> s ! i" "\<not> s ! i < 0x80"
    by blast
  then show ?thesis
  proof cases
    case lead
    then have nc: "\<not> (0x80 \<le> s ! i \<and> s ! i < 0xC0)"
      by (simp add: not_less)
    from assms i lead obtain t' where
      "addutf_walk (clo6 ! (unat (s ! i) mod 64)) (S ! (unat (s ! i) mod 64)) s (i + 1) al
         = Some (r, t', al')"
      "S' = S[unat (s ! i) mod 64 := t']"
      by (simp add: addutf_def rd_def Let_def del: addutf_walk.simps
          split: option.splits if_splits prod.splits)
    with i lead nc show ?thesis
      by (intro walk [of t']) (simp_all add: lead_ix_def del: addutf_walk.simps)
  next
    case ascii
    then have nc: "\<not> (0x80 \<le> s ! i \<and> s ! i < 0xC0)"
      by (simp add: not_le)
    from ascii have n0: "clo6 ! (unat (s ! i) div 64) = 0"
      by (auto simp: clo6_nth word_less_nat_alt)
    from assms i ascii obtain t' where
      "addutf_walk 0 (S ! (unat (s ! i) div 64)) s i al = Some (r, t', al')"
      "S' = S[unat (s ! i) div 64 := t']"
      by (simp add: addutf_def rd_def Let_def del: addutf_walk.simps
          split: option.splits if_splits prod.splits)
    with i ascii nc n0 show ?thesis
      by (intro walk [of t']) (simp_all add: lead_ix_def del: addutf_walk.simps)
  next
    case cont
    with assms i show ?thesis
      by (intro malformed) (simp_all add: addutf_def rd_def not_le not_less)
  qed
qed

lemma addutf_success:
  assumes "addutf S s i al = Some (Some j, S', al')" and "wf_set S"
  shows "wf_set S'" and "i < length s" and "\<not> (0x80 \<le> s ! i \<and> s ! i < 0xC0)"
    and "j = i + enc_len (s ! i)" and "j \<le> length s"
    and "\<And>k. k \<noteq> lead_ix (s ! i) \<Longrightarrow> root_elems S' k = root_elems S k"
    and "set (root_elems S' (lead_ix (s ! i)))
          = insert (rune_at s i) (set (root_elems S (lead_ix (s ! i))))"
proof -
  let ?c = "lead_ix (s ! i)"
  let ?n = "clo6 ! ?c"
  let ?p = "?c mod drop_bit ?n 64"
  let ?i = "if 0xC0 \<le> s ! i then i + 1 else i"
  from assms(1) obtain t' where walk: "i < length s" "\<not> (0x80 \<le> s ! i \<and> s ! i < 0xC0)"
      "addutf_walk ?n (S ! ?c) s ?i al = Some (Some j, t', al')"
      "S' = S[?c := t']"
    by (cases rule: addutf_cases) auto
  from walk(2) have c: "?c < 64"
    by (rule lead_ix_less)
  have n0: "\<not> 0xC0 \<le> s ! i \<Longrightarrow> ?n = 0"
    using walk(2) by (auto simp: lead_ix_def clo6_nth word_less_nat_alt word_le_nat_alt)
  from walk_success [OF wf_set_shape [OF assms(2) c] walk(3), of ?p]
  have W: "shape ?n t'" "j = ?i + ?n + 1" "?i + ?n < length s"
    "set (elems ?n t' ?p) = insert (?p * 64 ^ Suc ?n + payload ?n s ?i) (set (elems ?n (S ! ?c) ?p))"
    by simp_all
  show "wf_set S'"
    using wf_set_update [OF assms(2) c W(1)] walk(4) by simp
  show "i < length s" "\<not> (0x80 \<le> s ! i \<and> s ! i < 0xC0)"
    using walk by simp_all
  show "j = i + enc_len (s ! i)"
    using W(2) n0 by (auto simp: enc_len_def lead_ix_def)
  show "j \<le> length s"
    using W(2,3) by simp
  show "root_elems S' k = root_elems S k" if "k \<noteq> ?c" for k
    using that walk(4) c wf_set_length [OF assms(2)] by (simp add: root_elems_update)
  show "set (root_elems S' ?c) = insert (rune_at s i) (set (root_elems S ?c))"
    using W(4) walk(4) c wf_set_length [OF assms(2)]
    by (simp add: root_elems_update rune_at_def Let_def) (simp add: root_elems_def)
qed

lemma addutf_members:
  assumes "addutf S s i al = Some (Some j, S', al')" and "wf_set S"
  shows "set (members S') = insert (rune_at s i) (set (members S))"
proof -
  let ?c = "lead_ix (s ! i)"
  note A = addutf_success [OF assms]
  from A(3) have c: "?c < 64" by (rule lead_ix_less)
  have "(\<Union>k\<in>{0..<64}. set (root_elems S' k))
      = set (root_elems S' ?c) \<union> (\<Union>k\<in>{0..<64} - {?c}. set (root_elems S' k))"
    using c by auto
  also have "\<dots> = insert (rune_at s i) (set (root_elems S ?c))
      \<union> (\<Union>k\<in>{0..<64} - {?c}. set (root_elems S k))"
    using A(6,7) by simp
  also have "\<dots> = insert (rune_at s i) (\<Union>k\<in>{0..<64}. set (root_elems S k))"
    using c by auto
  finally show ?thesis
    by (simp only: set_members)
qed

lemma addutf_failure:
  assumes "addutf S s i al = Some (None, S', al')" and "wf_set S"
  shows "wf_set S' \<and> root_elems S' k = root_elems S k"
  using assms(1)
proof (cases rule: addutf_cases)
  case malformed
  with assms(2) show ?thesis
    by simp
next
  case (walk t')
  let ?c = "lead_ix (s ! i)"
  let ?n = "clo6 ! ?c"
  let ?p = "?c mod drop_bit ?n 64"
  from walk(2) have c: "?c < 64"
    by (rule lead_ix_less)
  from walk_failure [OF wf_set_shape [OF assms(2) c] walk(3), of ?p]
  have W: "shape ?n t'" "elems ?n t' ?p = elems ?n (S ! ?c) ?p"
    by simp_all
  have "wf_set S'"
    using wf_set_update [OF assms(2) c W(1)] walk(4) by simp
  moreover have "root_elems S' k = root_elems S k"
    using W(2) walk(4) c wf_set_length [OF assms(2)]
    by (simp add: root_elems_update) (simp add: root_elems_def)
  ultimately show ?thesis ..
qed


lemma canonical_iff:
  "canonical S \<longleftrightarrow>
     wf_set S \<and> (\<forall>c<64. \<forall>x\<in>set (root_elems S c). bound c \<le> x \<and> x < bound (Suc c))"
  by (auto simp: canonical_def list_all_iff)

lemma bound_mono: "bound c \<le> bound (Suc c)"
  by (simp add: bound_def) arith

lemma bound_64: "bound 64 = 2147483648"
  by (simp add: bound_def)

lemma root_elems_zero_block: "c < 64 \<Longrightarrow> root_elems zero_block c = []"
  by (simp add: root_elems_def zero_block_def elems_zero)

lemma canonical_zero_block: "canonical zero_block"
  by (simp add: canonical_iff wf_zero_block root_elems_zero_block)

lemma canonical_sorted:
  assumes "canonical S"
  shows "sorted_wrt (<) (members S) \<and> (\<forall>x\<in>set (members S). x < 2147483648)"
proof -
  from assms have wf: "wf_set S"
    and bd: "\<And>c x. c < 64 \<Longrightarrow> x \<in> set (root_elems S c) \<Longrightarrow> bound c \<le> x \<and> x < bound (Suc c)"
    by (auto simp: canonical_iff)
  have "sorted_wrt (<) (concat (map (root_elems S) [0..<64]))
      \<and> (\<forall>x\<in>set (concat (map (root_elems S) [0..<64])). bound 0 \<le> x \<and> x < bound 64)"
  proof (rule sorted_concat_ranges)
    show "sorted_wrt (<) (root_elems S c)" if "c < 64" for c
      using elems_sorted_range [OF wf_set_shape [OF wf that]] by (simp add: root_elems_def)
  qed (use bd bound_mono in auto)
  then show ?thesis
    by (simp add: members_def bound_64)
qed

lemma sorted_of_nat:
  assumes "sorted_wrt (<) xs" and "\<forall>x\<in>set xs. x < 2147483648"
  shows "sorted_wrt (<) (map of_nat xs :: rune list)"
proof -
  have "sorted_wrt (\<lambda>x y. (of_nat x :: rune) < of_nat y) xs"
    using assms(1)
  proof (rule sorted_wrt_mono_rel [rotated])
    fix x y assume "x \<in> set xs" "y \<in> set xs" "x < y"
    with assms(2) have "x < 2 ^ 32" "y < 2 ^ 32" by fastforce+
    with \<open>x < y\<close> show "(of_nat x :: rune) < of_nat y"
      by (simp add: of_nat_word_less_iff take_bit_nat_eq_self)
  qed
  then show ?thesis
    by (simp add: sorted_wrt_map)
qed

lemma canonical_visits:
  assumes "canonical S"
  shows "\<exists>vs. visits S = Some vs \<and> sorted_wrt (<) vs \<and> distinct vs
           \<and> set vs = of_nat ` set (members S)"
proof -
  from assms have wf: "wf_set S" by (simp add: canonical_iff)
  note srt = canonical_sorted [OF assms]
  have "sorted_wrt (<) (map of_nat (members S) :: rune list)"
    using srt by (intro sorted_of_nat) auto
  moreover from this have "distinct (map of_nat (members S) :: rune list)"
    by (simp only: strict_sorted_iff)
  ultimately show ?thesis
    by (simp add: visits_members [OF wf])
qed

lemma canonical_addutf:
  assumes "canonical S" and "addutf S s i al = Some (Some j, S', al')"
    and "bound (lead_ix (s ! i)) \<le> rune_at s i" "rune_at s i < bound (Suc (lead_ix (s ! i)))"
  shows "canonical S'"
proof -
  from assms(1) have wf: "wf_set S"
    and bd: "\<And>c x. c < 64 \<Longrightarrow> x \<in> set (root_elems S c) \<Longrightarrow> bound c \<le> x \<and> x < bound (Suc c)"
    by (auto simp: canonical_iff)
  note A = addutf_success [OF assms(2) wf]
  have "bound c \<le> x \<and> x < bound (Suc c)" if "c < 64" "x \<in> set (root_elems S' c)" for c x
  proof (cases "c = lead_ix (s ! i)")
    case True
    with that A(7) assms(3,4) bd [of c x] show ?thesis by auto
  next
    case False
    with that A(6) bd [of c x] show ?thesis by simp
  qed
  with A(1) show ?thesis
    by (simp add: canonical_iff)
qed

subsection \<open>The encoder meets the tree\<close>

lemma digit_step: "(y::nat) div 64 * (64 * m) + y mod 64 * m = y * m"
proof -
  have "(y div 64 * 64 + y mod 64) * m = y * m" by simp
  then show ?thesis by (simp only: algebra_simps)
qed

lemma split64_3: "(x::nat) div 4096 * 4096 + (x div 64 mod 64 * 64 + x mod 64) = x"
proof -
  have "x div 4096 = x div 64 div 64" by (simp add: div_mult2_eq)
  with digit_step [of "x div 64" 64]
  have "x div 4096 * 4096 + x div 64 mod 64 * 64 = x div 64 * 64" by simp
  moreover have "x div 64 * 64 + x mod 64 = x" by simp
  ultimately show ?thesis by linarith
qed

lemma split64_4:
  "(x::nat) div 262144 * 262144 + (x div 4096 mod 64 * 4096 + (x div 64 mod 64 * 64 + x mod 64)) = x"
proof -
  have "x div 262144 = x div 4096 div 64" by (simp add: div_mult2_eq)
  with digit_step [of "x div 4096" 4096]
  have "x div 262144 * 262144 + x div 4096 mod 64 * 4096 = x div 4096 * 4096" by simp
  with split64_3 [of x] show ?thesis by linarith
qed

lemma split64_5:
  "(x::nat) div 16777216 * 16777216 + (x div 262144 mod 64 * 262144
     + (x div 4096 mod 64 * 4096 + (x div 64 mod 64 * 64 + x mod 64))) = x"
proof -
  have "x div 16777216 = x div 262144 div 64" by (simp add: div_mult2_eq)
  with digit_step [of "x div 262144" 262144]
  have "x div 16777216 * 16777216 + x div 262144 mod 64 * 262144 = x div 262144 * 262144" by simp
  with split64_4 [of x] show ?thesis by linarith
qed

lemma split64_6:
  "(x::nat) div 1073741824 * 1073741824 + (x div 16777216 mod 64 * 16777216
     + (x div 262144 mod 64 * 262144
     + (x div 4096 mod 64 * 4096 + (x div 64 mod 64 * 64 + x mod 64)))) = x"
proof -
  have "x div 1073741824 = x div 16777216 div 64" by (simp add: div_mult2_eq)
  with digit_step [of "x div 16777216" 16777216]
  have "x div 1073741824 * 1073741824 + x div 16777216 mod 64 * 16777216
      = x div 16777216 * 16777216" by simp
  with split64_5 [of x] show ?thesis by linarith
qed


lemma payload_append: "payload n (pre @ xs) (length pre + k) = payload n xs k"
proof (induction n arbitrary: k)
  case 0
  show ?case by (simp add: nth_append)
next
  case (Suc n)
  from Suc.IH [of "k + 1"] show ?case
    by (simp add: nth_append add.assoc)
qed

lemma rune_at_append: "rune_at (pre @ xs) (length pre) = rune_at xs 0"
  using payload_append [of _ pre xs 0] payload_append [of _ pre xs 1]
  by (simp add: rune_at_def Let_def nth_append)

lemma payload_Cons: "payload (Suc n) (b # rest) 0 = unat b mod 64 * 64 ^ Suc n + payload n rest 0"
  using payload_append [of n "[b]" rest 0] by simp

lemma unat8: "unat (of_nat n :: byte) = n mod 256"
  by (simp add: unat_of_nat)

lemma unat_cont: "unat (cont y) mod 64 = y mod 64"
proof -
  have "unat (cont y) = (128 + y mod 64) mod 2 ^ LENGTH(8)"
    unfolding cont_def by (rule unat_of_nat)
  then have "unat (cont y) = 2 * 64 + y mod 64" by simp
  then show ?thesis by (simp only: mod_mult_self3 mod_mod_trivial)
qed

lemma lead_byte:
  assumes "q < m" "L + m \<le> 256" "192 \<le> L" "L - 192 + m \<le> 64"
  shows "(0xC0 :: byte) \<le> of_nat (L + q)" and "lead_ix (of_nat (L + q)) = L - 192 + q"
proof -
  from assms have "(L + q) mod 256 = L + q"
    by simp
  then have u: "unat (of_nat (L + q) :: byte) = L + q"
    by (simp only: unat8)
  have "unat (0xC0 :: byte) = 192" by simp
  with u assms(3) show le: "(0xC0 :: byte) \<le> of_nat (L + q)"
    by (simp only: word_le_nat_alt)
  from assms have "L + q = (L - 192 + q) + 64 * 3"
    by simp
  then have "(L + q) mod 64 = ((L - 192 + q) + 64 * 3) mod 64"
    by (rule arg_cong)
  also have "\<dots> = (L - 192 + q) mod 64"
    by (simp only: mod_mult_self2)
  also from assms have "\<dots> = L - 192 + q"
    by simp
  finally have "unat (of_nat (L + q) :: byte) mod 64 = L - 192 + q"
    by (simp only: u)
  with le show "lead_ix (of_nat (L + q)) = L - 192 + q"
    by (simp only: lead_ix_def if_True)
qed

lemma rune_at_lead:
  assumes "0xC0 \<le> b" and "lead_ix b = c" and "clo6 ! c = n"
  shows "rune_at (b # rest) 0 = (c mod drop_bit n 64) * 64 ^ Suc n + payload n rest 0"
  using payload_append [of n "[b]" rest 0] assms by (simp add: rune_at_def Let_def)

lemma mod_shift: "(q::nat) < d \<Longrightarrow> (d * j + q) mod d = q"
  by simp

lemma div_bounds: "0 < (d::nat) \<Longrightarrow> x div d * d \<le> x \<and> x < (x div d + 1) * d"
  using dividend_less_div_times [of d x] by (simp add: algebra_simps)


lemma enc2:
  assumes "0x80 \<le> x" "x < 0x800"
  defines "b \<equiv> (of_nat (192 + x div 64) :: byte)"
  shows "rune_at (b # cont x # post) 0 = x"
    and "bound (lead_ix b) \<le> x" and "x < bound (Suc (lead_ix b))"
    and "enc_len b = 2" and "0xC0 \<le> b"
proof -
  let ?q = "x div 64"
  from assms(1,2) have q: "?q < 32" by simp
  from lead_byte [OF q, of 192] have le: "0xC0 \<le> b" and ix: "lead_ix b = 0 + ?q"
    by (simp_all add: b_def)
  from q have n: "clo6 ! (0 + ?q) = 0"
    by (simp add: clo6_nth)
  from mod_shift [of ?q 64 0] q have p: "(0 + ?q) mod 64 = ?q" by simp
  from rune_at_lead [OF le ix n] p div_mult_mod_eq [of x 64]
  show "rune_at (b # cont x # post) 0 = x"
    by (simp add: payload_Cons unat_cont drop_bit_eq_div)
  from div_bounds [of 64 x] assms(1,2) q
  have "bound (0 + ?q) \<le> x \<and> x < bound (Suc (0 + ?q))"
    by (auto simp: bound_def)
  then show "bound (lead_ix b) \<le> x" "x < bound (Suc (lead_ix b))"
    by (simp_all only: ix)
  from le n show "enc_len b = 2"
    using ix by (simp add: enc_len_def lead_ix_def)
  show "0xC0 \<le> b" by (rule le)
qed

lemma enc3:
  assumes "0x800 \<le> x" "x < 0x10000"
  defines "b \<equiv> (of_nat (224 + x div 4096) :: byte)"
  shows "rune_at (b # cont (x div 64) # cont x # post) 0 = x"
    and "bound (lead_ix b) \<le> x" and "x < bound (Suc (lead_ix b))"
    and "enc_len b = 3" and "0xC0 \<le> b"
proof -
  let ?q = "x div 4096"
  from assms(1,2) have q: "?q < 16" by simp
  from lead_byte [OF q, of 224] have le: "0xC0 \<le> b" and ix: "lead_ix b = 32 + ?q"
    by (simp_all add: b_def)
  from q have n: "clo6 ! (32 + ?q) = Suc 0"
    by (simp add: clo6_nth)
  from mod_shift [of ?q 32 1] q have p: "(32 + ?q) mod 32 = ?q" by simp
  from rune_at_lead [OF le ix n] p split64_3 [of x]
  show "rune_at (b # cont (x div 64) # cont x # post) 0 = x"
    by (simp add: payload_Cons unat_cont drop_bit_eq_div)
  from div_bounds [of 4096 x] assms(1,2) q
  have "bound (32 + ?q) \<le> x \<and> x < bound (Suc (32 + ?q))"
    by (auto simp: bound_def)
  then show "bound (lead_ix b) \<le> x" "x < bound (Suc (lead_ix b))"
    by (simp_all only: ix)
  from le n show "enc_len b = 3"
    using ix by (simp add: enc_len_def lead_ix_def)
  show "0xC0 \<le> b" by (rule le)
qed

lemma enc4:
  assumes "0x10000 \<le> x" "x < 0x200000"
  defines "b \<equiv> (of_nat (240 + x div 262144) :: byte)"
  shows "rune_at (b # cont (x div 4096) # cont (x div 64) # cont x # post) 0 = x"
    and "bound (lead_ix b) \<le> x" and "x < bound (Suc (lead_ix b))"
    and "enc_len b = 4" and "0xC0 \<le> b"
proof -
  let ?q = "x div 262144"
  from assms(1,2) have q: "?q < 8" by simp
  from lead_byte [OF q, of 240] have le: "0xC0 \<le> b" and ix: "lead_ix b = 48 + ?q"
    by (simp_all add: b_def)
  from q have n: "clo6 ! (48 + ?q) = Suc (Suc 0)"
    by (simp add: clo6_nth)
  from mod_shift [of ?q 16 3] q have p: "(48 + ?q) mod 16 = ?q" by simp
  from rune_at_lead [OF le ix n] p split64_4 [of x]
  show "rune_at (b # cont (x div 4096) # cont (x div 64) # cont x # post) 0 = x"
    by (simp add: payload_Cons unat_cont drop_bit_eq_div)
  from div_bounds [of 262144 x] assms(1,2) q
  have "bound (48 + ?q) \<le> x \<and> x < bound (Suc (48 + ?q))"
    by (auto simp: bound_def)
  then show "bound (lead_ix b) \<le> x" "x < bound (Suc (lead_ix b))"
    by (simp_all only: ix)
  from le n show "enc_len b = 4"
    using ix by (simp add: enc_len_def lead_ix_def)
  show "0xC0 \<le> b" by (rule le)
qed

lemma enc5:
  assumes "0x200000 \<le> x" "x < 0x4000000"
  defines "b \<equiv> (of_nat (248 + x div 16777216) :: byte)"
  shows "rune_at (b # cont (x div 262144) # cont (x div 4096) # cont (x div 64) # cont x # post) 0 = x"
    and "bound (lead_ix b) \<le> x" and "x < bound (Suc (lead_ix b))"
    and "enc_len b = 5" and "0xC0 \<le> b"
proof -
  let ?q = "x div 16777216"
  from assms(1,2) have q: "?q < 4" by simp
  from lead_byte [OF q, of 248] have le: "0xC0 \<le> b" and ix: "lead_ix b = 56 + ?q"
    by (simp_all add: b_def)
  from q have n: "clo6 ! (56 + ?q) = Suc (Suc (Suc 0))"
    by (simp add: clo6_nth)
  from mod_shift [of ?q 8 7] q have p: "(56 + ?q) mod 8 = ?q" by simp
  from rune_at_lead [OF le ix n] p split64_5 [of x]
  show "rune_at (b # cont (x div 262144) # cont (x div 4096) # cont (x div 64) # cont x # post) 0 = x"
    by (simp add: payload_Cons unat_cont drop_bit_eq_div)
  from div_bounds [of 16777216 x] assms(1,2) q
  have "bound (56 + ?q) \<le> x \<and> x < bound (Suc (56 + ?q))"
    by (auto simp: bound_def)
  then show "bound (lead_ix b) \<le> x" "x < bound (Suc (lead_ix b))"
    by (simp_all only: ix)
  from le n show "enc_len b = 5"
    using ix by (simp add: enc_len_def lead_ix_def)
  show "0xC0 \<le> b" by (rule le)
qed

lemma enc6:
  assumes "0x4000000 \<le> x" "x < 0x80000000"
  defines "b \<equiv> (of_nat (252 + x div 1073741824) :: byte)"
  shows "rune_at (b # cont (x div 16777216) # cont (x div 262144) # cont (x div 4096) # cont (x div 64) # cont x # post) 0 = x"
    and "bound (lead_ix b) \<le> x" and "x < bound (Suc (lead_ix b))"
    and "enc_len b = 6" and "0xC0 \<le> b"
proof -
  let ?q = "x div 1073741824"
  from assms(1,2) have q: "?q < 2" by simp
  from lead_byte [OF q, of 252] have le: "0xC0 \<le> b" and ix: "lead_ix b = 60 + ?q"
    by (simp_all add: b_def)
  from q have n: "clo6 ! (60 + ?q) = Suc (Suc (Suc (Suc 0)))"
    by (simp add: clo6_nth)
  from mod_shift [of ?q 4 15] q have p: "(60 + ?q) mod 4 = ?q" by simp
  from rune_at_lead [OF le ix n] p split64_6 [of x]
  show "rune_at (b # cont (x div 16777216) # cont (x div 262144) # cont (x div 4096) # cont (x div 64) # cont x # post) 0 = x"
    by (simp add: payload_Cons unat_cont drop_bit_eq_div)
  from div_bounds [of 1073741824 x] assms(1,2) q
  have "bound (60 + ?q) \<le> x \<and> x < bound (Suc (60 + ?q))"
    by (auto simp: bound_def)
  then show "bound (lead_ix b) \<le> x" "x < bound (Suc (lead_ix b))"
    by (simp_all only: ix)
  from le n show "enc_len b = 6"
    using ix by (simp add: enc_len_def lead_ix_def)
  show "0xC0 \<le> b" by (rule le)
qed

lemma enc1:
  assumes "x < 0x80"
  defines "b \<equiv> (of_nat x :: byte)"
  shows "rune_at (b # post) 0 = x"
    and "bound (lead_ix b) \<le> x" and "x < bound (Suc (lead_ix b))"
    and "enc_len b = 1" and "b < 0x80"
proof -
  from assms(1) have "x mod 256 = x" by simp
  then have u: "unat b = x"
    by (simp only: b_def unat8)
  have "unat (0x80 :: byte) = 128" "unat (0xC0 :: byte) = 192" by simp_all
  with u assms(1) have lt: "b < 0x80" and nle: "\<not> 0xC0 \<le> b"
    by (simp_all only: word_less_nat_alt word_le_nat_alt)
  show "b < 0x80" by (rule lt)
  from nle u have ix: "lead_ix b = x div 64"
    by (simp only: lead_ix_def if_False)
  from assms(1) have q: "x div 64 < 2" by simp
  then have n: "clo6 ! (x div 64) = 0"
    by (simp add: clo6_nth)
  from q nle u n show "rune_at (b # post) 0 = x"
    by (simp add: rune_at_def Let_def ix)
  from div_bounds [of 64 x] q
  have "bound (x div 64) \<le> x \<and> x < bound (Suc (x div 64))"
    by (auto simp: bound_def)
  then show "bound (lead_ix b) \<le> x" "x < bound (Suc (lead_ix b))"
    by (simp_all only: ix)
  from nle show "enc_len b = 1"
    by (simp add: enc_len_def)
qed


lemma utf8_encode_cases:
  assumes "unat r < 0x80000000"
  obtains b rest where "utf8_encode r = b # rest"
    and "\<And>post. rune_at (b # rest @ post) 0 = unat r"
    and "bound (lead_ix b) \<le> unat r" and "unat r < bound (Suc (lead_ix b))"
    and "enc_len b = Suc (length rest)" and "\<not> (0x80 \<le> b \<and> b < 0xC0)"
proof -
  let ?x = "unat r"
  consider (1) "?x < 0x80" | (2) "0x80 \<le> ?x" "?x < 0x800" | (3) "0x800 \<le> ?x" "?x < 0x10000"
    | (4) "0x10000 \<le> ?x" "?x < 0x200000" | (5) "0x200000 \<le> ?x" "?x < 0x4000000"
    | (6) "0x4000000 \<le> ?x" "?x < 0x80000000"
    using assms by linarith
  then show ?thesis
  proof cases
    case 1
    then have e: "utf8_encode r = [of_nat ?x]"
      by (simp add: utf8_encode_def Let_def)
    from enc1 [OF 1] show ?thesis
      by (intro that [OF e]) (simp_all add: not_le)
  next
    case 2
    then have e: "utf8_encode r = [of_nat (0xC0 + ?x div 64), cont ?x]"
      by (simp add: utf8_encode_def Let_def)
    from enc2 [OF 2] show ?thesis
      by (intro that [OF e]) (simp_all add: not_less)
  next
    case 3
    then have e: "utf8_encode r = [of_nat (0xE0 + ?x div 4096), cont (?x div 64), cont ?x]"
      by (simp add: utf8_encode_def Let_def)
    from enc3 [OF 3] show ?thesis
      by (intro that [OF e]) (simp_all add: not_less)
  next
    case 4
    then have e: "utf8_encode r
        = [of_nat (0xF0 + ?x div 262144), cont (?x div 4096), cont (?x div 64), cont ?x]"
      by (simp add: utf8_encode_def Let_def)
    from enc4 [OF 4] show ?thesis
      by (intro that [OF e]) (simp_all add: not_less)
  next
    case 5
    then have e: "utf8_encode r
        = [of_nat (0xF8 + ?x div 16777216), cont (?x div 262144), cont (?x div 4096),
           cont (?x div 64), cont ?x]"
      by (simp add: utf8_encode_def Let_def)
    from enc5 [OF 5] show ?thesis
      by (intro that [OF e]) (simp_all add: not_less)
  next
    case 6
    then have e: "utf8_encode r
        = [of_nat (0xFC + ?x div 1073741824), cont (?x div 16777216), cont (?x div 262144),
           cont (?x div 4096), cont (?x div 64), cont ?x]"
      by (simp add: utf8_encode_def Let_def)
    from enc6 [OF 6] show ?thesis
      by (intro that [OF e]) (simp_all add: not_less)
  qed
qed

lemma enc_at:
  assumes "unat r < 0x80000000" and "s = pre @ utf8_encode r @ post"
  shows "rune_at s (length pre) = unat r"
    and "bound (lead_ix (s ! length pre)) \<le> unat r"
    and "unat r < bound (Suc (lead_ix (s ! length pre)))"
    and "enc_len (s ! length pre) = length (utf8_encode r)"
proof -
  from assms(1) obtain b rest where e: "utf8_encode r = b # rest"
    and R: "rune_at (b # rest @ post) 0 = unat r"
      "bound (lead_ix b) \<le> unat r" "unat r < bound (Suc (lead_ix b))"
      "enc_len b = Suc (length rest)"
    by (rule utf8_encode_cases) blast
  have b: "s ! length pre = b"
    by (simp add: assms(2) e)
  from R(1) show "rune_at s (length pre) = unat r"
    using rune_at_append [of pre "b # rest @ post"] by (simp add: assms(2) e)
  from R(2-4) show "bound (lead_ix (s ! length pre)) \<le> unat r"
    "unat r < bound (Suc (lead_ix (s ! length pre)))"
    "enc_len (s ! length pre) = length (utf8_encode r)"
    by (simp_all add: b e)
qed

subsection \<open>Repeated insertion, allocation\<close>

lemma walk_idem:
  "addutf_walk n t s i al = Some (Some j, t', al') \<Longrightarrow>
   addutf_walk n t' s i al2 = Some (Some j, t', al2)"
proof (induction n arbitrary: t i al t' al')
  case 0
  then show ?case
    by (auto simp: rd_def split: if_splits child.splits)
next
  case (Suc n)
  from Suc.prems obtain blk al1 where
    D: "(case rd s i of
        None \<Rightarrow> None
      | Some b \<Rightarrow>
          (let c = unat b mod 64 in
           if c < length blk then
             (case addutf_walk n (blk ! c) s (i + 1) al1 of
                None \<Rightarrow> None
              | Some (r, t', al'') \<Rightarrow> Some (r, Ptr (blk[c := t']), al''))
           else None)) = Some (Some j, t', al')"
    by (auto split: child.splits if_splits option.splits prod.splits)
  let ?c = "unat (s ! i) mod 64"
  from walk_descend [OF D] obtain tc where i: "i < length s"
    and W: "addutf_walk n (blk ! ?c) s (i + 1) al1 = Some (Some j, tc, al')"
    and t': "t' = Ptr (blk[?c := tc])"
    by blast
  from D i have c: "?c < length blk"
    by (auto simp: rd_def Let_def split: if_splits)
  from Suc.IH [OF W] have "addutf_walk n tc s (i + 1) al2 = Some (Some j, tc, al2)" .
  with i c show ?case
    by (simp add: t' rd_def)
qed

lemma addutf_idem:
  assumes "addutf S s i al = Some (Some j, S', al')"
  shows "addutf S' s i al2 = Some (Some j, S', al2)"
proof -
  from assms have i: "i < length s"
    by (auto simp: addutf_def rd_def split: if_splits)
  consider (lead) "0xC0 \<le> s ! i" | (ascii) "\<not> 0xC0 \<le> s ! i" "s ! i < 0x80"
    | (cont) "\<not> 0xC0 \<le> s ! i" "\<not> s ! i < 0x80"
    by blast
  then show ?thesis
  proof cases
    case lead
    let ?c = "unat (s ! i) mod 64"
    from assms i lead obtain t' where c: "?c < length S"
      and W: "addutf_walk (clo6 ! ?c) (S ! ?c) s (i + 1) al = Some (Some j, t', al')"
      and S': "S' = S[?c := t']"
      by (simp add: addutf_def rd_def Let_def del: addutf_walk.simps
          split: option.splits if_splits prod.splits)
    from walk_idem [OF W] c i lead show ?thesis
      by (simp add: addutf_def rd_def Let_def S' del: addutf_walk.simps)
  next
    case ascii
    let ?c = "unat (s ! i) div 64"
    from assms i ascii obtain t' where c: "?c < length S"
      and W: "addutf_walk 0 (S ! ?c) s i al = Some (Some j, t', al')"
      and S': "S' = S[?c := t']"
      by (simp add: addutf_def rd_def Let_def del: addutf_walk.simps
          split: option.splits if_splits prod.splits)
    from walk_idem [OF W] c i ascii show ?thesis
      by (simp add: addutf_def rd_def Let_def S' del: addutf_walk.simps)
  next
    case cont
    with assms i show ?thesis
      by (simp add: addutf_def rd_def)
  qed
qed

lemma plenty_Suc: "plenty (Suc n) al \<longleftrightarrow> (\<exists>al1. al = True # al1 \<and> plenty n al1)"
  by (cases al) (auto simp: plenty_def)

lemma plenty_mono: "plenty n al \<Longrightarrow> m \<le> n \<Longrightarrow> plenty m al"
  by (auto simp: plenty_def list_all_length)

lemma walk_plenty:
  "shape n t \<Longrightarrow> i + n < length s \<Longrightarrow> plenty (n + m) al \<Longrightarrow>
   \<exists>t' al'. addutf_walk n t s i al = Some (Some (i + n + 1), t', al') \<and> plenty m al'"
proof (induction n arbitrary: t i al)
  case 0
  then obtain w where "t = Bits w" by (cases t) auto
  with "0.prems" show ?case
    by (simp add: rd_def)
next
  case (Suc n)
  let ?c = "unat (s ! i) mod 64"
  from Suc.prems(2) have i: "i < length s" and i1: "(i + 1) + n < length s"
    by simp_all
  have step: "\<exists>t' al'. addutf_walk n (blk ! ?c) s (i + 1) al1 = Some (Some (i + 1 + n + 1), t', al')
      \<and> plenty m al'" if "shape (Suc n) (Ptr blk)" "plenty (n + m) al1" for blk al1
  proof -
    from that(1) have "shape n (blk ! ?c)"
      by (auto simp: list_all_length)
    from Suc.IH [OF this i1 that(2)] show ?thesis .
  qed
  show ?case
  proof (cases t)
    case (Bits w)
    with Suc.prems(1) have w: "w = 0" by simp
    from Suc.prems(3) obtain al1 where al: "al = True # al1" and p: "plenty (n + m) al1"
      by (auto simp: plenty_Suc)
    from step [OF shape_zero_block p] obtain t' al' where
      "addutf_walk n (zero_block ! ?c) s (i + 1) al1 = Some (Some (i + 1 + n + 1), t', al')"
      "plenty m al'"
      by blast
    with i show ?thesis
      by (simp add: Bits w al rd_def zero_block_def)
  next
    case (Ptr blk)
    from Suc.prems(3) have p: "plenty (n + m) al"
      by (rule plenty_mono) simp
    from Suc.prems(1) Ptr have len: "length blk = 64"
      by simp
    from step [OF Suc.prems(1) [unfolded Ptr] p] obtain t' al' where
      "addutf_walk n (blk ! ?c) s (i + 1) al = Some (Some (i + 1 + n + 1), t', al')"
      "plenty m al'"
      by blast
    with i len show ?thesis
      by (simp add: Ptr rd_def)
  qed
qed

lemma alloc_failed_Cons: "alloc_failed al al' \<Longrightarrow> alloc_failed (True # al) al'"
  by (simp add: alloc_failed_def)

lemma walk_null_alloc:
  "addutf_walk n t s i al = Some (None, t', al') \<Longrightarrow> alloc_failed al al'"
proof (induction n arbitrary: t i al t' al')
  case 0
  then show ?case
    by (auto simp: rd_def split: if_splits child.splits)
next
  case (Suc n)
  show ?case
  proof (cases t)
    case (Bits w)
    show ?thesis
    proof (cases al)
      case Nil
      with Suc.prems Bits show ?thesis
        by (auto simp: alloc_failed_def split: if_splits)
    next
      case (Cons ok al1)
      show ?thesis
      proof (cases ok)
        case True
        with Suc.prems Bits Cons have "\<exists>u i' u'. addutf_walk n u s i' al1 = Some (None, u', al')"
          by (auto simp: Let_def rd_def split: if_splits option.splits prod.splits)
        with Suc.IH have "alloc_failed al1 al'" by blast
        with Cons True show ?thesis
          by (simp add: alloc_failed_Cons)
      next
        case False
        with Suc.prems Bits Cons show ?thesis
          by (auto simp: alloc_failed_def split: if_splits)
      qed
    qed
  next
    case (Ptr blk)
    with Suc.prems have "\<exists>u i' u'. addutf_walk n u s i' al = Some (None, u', al')"
      by (auto simp: Let_def rd_def split: if_splits option.splits prod.splits)
    with Suc.IH show ?thesis by blast
  qed
qed

lemma members_zero_block: "members zero_block = []"
  by (simp add: members_def root_elems_zero_block)

lemma visits_zero_block: "visits zero_block = Some []"
  by (simp add: visits_members wf_zero_block members_zero_block)

subsection \<open>Sequences of insertions\<close>

lemma addutf_rune:
  assumes "canonical S" and "unat r < 0x80000000" and "s = pre @ utf8_encode r @ post"
    and "addutf S s (length pre) al = Some (Some j, S', al')"
  shows "canonical S'" and "set (members S') = insert (unat r) (set (members S))"
    and "j = length pre + length (utf8_encode r)"
proof -
  from assms(1) have wf: "wf_set S" by (simp add: canonical_iff)
  note E = enc_at [OF assms(2,3)]
  from canonical_addutf [OF assms(1,4)] E show "canonical S'" by simp
  from addutf_members [OF assms(4) wf] E show "set (members S') = insert (unat r) (set (members S))"
    by simp
  from addutf_success(4) [OF assms(4) wf] E show "j = length pre + length (utf8_encode r)"
    by simp
qed

lemma clo6_enc_len: "clo6 ! lead_ix b + (if 0xC0 \<le> b then 2 else 1) = enc_len b"
  if "\<not> (0x80 \<le> b \<and> b < 0xC0)"
proof (cases "0xC0 \<le> b")
  case True
  then show ?thesis by (simp add: enc_len_def lead_ix_def)
next
  case False
  with that have "b < 0x80" by (simp add: not_le)
  then have "unat b div 64 < 2"
    by (simp add: word_less_nat_alt)
  then have "clo6 ! (unat b div 64) = 0"
    by (simp add: clo6_nth)
  with False show ?thesis by (simp add: enc_len_def lead_ix_def)
qed

lemma addutf_rune_plenty:
  assumes "wf_set S" and "unat r < 0x80000000" and "s = pre @ utf8_encode r @ post"
    and "plenty (blocks_needed r + m) al"
  shows "\<exists>j S' al'. addutf S s (length pre) al = Some (Some j, S', al') \<and> plenty m al'"
proof -
  from assms(2) obtain b rest where e: "utf8_encode r = b # rest"
    and len: "enc_len b = Suc (length rest)" and nc: "\<not> (0x80 \<le> b \<and> b < 0xC0)"
    by (rule utf8_encode_cases) blast
  let ?i = "length pre"
  let ?c = "lead_ix b"
  let ?n = "clo6 ! ?c"
  let ?k = "if 0xC0 \<le> b then ?i + 1 else ?i"
  have b: "s ! ?i = b" and i: "?i < length s"
    by (simp_all add: assms(3) e)
  from nc have c: "?c < 64" by (rule lead_ix_less)
  note cl = clo6_enc_len [OF nc]
  from cl len have k: "?k + ?n < length s"
    by (auto simp: assms(3) e split: if_splits)
  from cl len have "?n \<le> blocks_needed r"
    by (auto simp: blocks_needed_def e enc_len_def split: if_splits)
  with assms(4) have "plenty (?n + m) al"
    by (auto intro: plenty_mono)
  from walk_plenty [OF wf_set_shape [OF assms(1) c] k this]
  obtain t' al' where W: "addutf_walk ?n (S ! ?c) s ?k al = Some (Some (?k + ?n + 1), t', al')"
    and p: "plenty m al'"
    by blast
  have "addutf S s ?i al = Some (Some (?k + ?n + 1), S[?c := t'], al')"
  proof (cases "0xC0 \<le> b")
    case True
    with W c i show ?thesis
      by (simp add: addutf_def rd_def b Let_def lead_ix_def wf_set_length [OF assms(1)]
          del: addutf_walk.simps)
  next
    case False
    with nc have lt: "b < 0x80" by (simp add: not_le)
    with cl False have "?n = 0" by (simp add: enc_len_def)
    with W c i False lt show ?thesis
      by (simp add: addutf_def rd_def b Let_def lead_ix_def wf_set_length [OF assms(1)]
          del: addutf_walk.simps)
  qed
  with p show ?thesis by blast
qed

lemma addutf_n_runes:
  assumes "canonical S0" and "\<forall>r\<in>set rs. unat r < 0x80000000"
    and "s = pre @ concat (map utf8_encode rs) @ post"
    and "addutf_n (length rs) S0 s (length pre) al = Some (Some j, S, al')"
  shows "canonical S \<and> set (members S) = set (members S0) \<union> unat ` set rs
       \<and> j = length pre + length (concat (map utf8_encode rs))"
  using assms
proof (induction rs arbitrary: S0 pre al)
  case Nil
  then show ?case by simp
next
  case (Cons r rs)
  from Cons.prems(4) obtain j1 S1 al1 where
    A: "addutf S0 s (length pre) al = Some (Some j1, S1, al1)"
    and N: "addutf_n (length rs) S1 s j1 al1 = Some (Some j, S, al')"
    by (auto split: option.splits prod.splits)
  from Cons.prems(2) have r: "unat r < 0x80000000" and rs: "\<forall>r\<in>set rs. unat r < 0x80000000"
    by simp_all
  from Cons.prems(3) have s1: "s = pre @ utf8_encode r @ (concat (map utf8_encode rs) @ post)"
    and s2: "s = (pre @ utf8_encode r) @ concat (map utf8_encode rs) @ post"
    by simp_all
  note R = addutf_rune [OF Cons.prems(1) r s1 A]
  from N R(3) have N': "addutf_n (length rs) S1 s (length (pre @ utf8_encode r)) al1
      = Some (Some j, S, al')"
    by simp
  from Cons.IH [OF R(1) rs s2 N'] R(2) show ?case
    by auto
qed

lemma addutf_n_plenty:
  assumes "wf_set S0" and "\<forall>r\<in>set rs. unat r < 0x80000000"
    and "s = pre @ concat (map utf8_encode rs) @ post"
    and "plenty (sum_list (map blocks_needed rs)) al"
  shows "\<exists>j S al'. addutf_n (length rs) S0 s (length pre) al = Some (Some j, S, al')"
  using assms
proof (induction rs arbitrary: S0 pre al)
  case Nil
  then show ?case by simp
next
  case (Cons r rs)
  from Cons.prems(2) have r: "unat r < 0x80000000" and rs: "\<forall>r\<in>set rs. unat r < 0x80000000"
    by simp_all
  from Cons.prems(3) have s1: "s = pre @ utf8_encode r @ (concat (map utf8_encode rs) @ post)"
    and s2: "s = (pre @ utf8_encode r) @ concat (map utf8_encode rs) @ post"
    by simp_all
  from Cons.prems(4) have "plenty (blocks_needed r + sum_list (map blocks_needed rs)) al"
    by simp
  from addutf_rune_plenty [OF Cons.prems(1) r s1 this] obtain j1 S1 al1 where
    A: "addutf S0 s (length pre) al = Some (Some j1, S1, al1)"
    and p: "plenty (sum_list (map blocks_needed rs)) al1"
    by blast
  note S = addutf_success [OF A Cons.prems(1)]
  from S(4) enc_at(4) [OF r s1] have j1: "j1 = length (pre @ utf8_encode r)"
    by simp
  from Cons.IH [OF S(1) rs s2 p] A j1 show ?case
    by simp
qed

lemma insert_calls_canonical:
  assumes "canonical S0" and "\<forall>(pre, r, post, al)\<in>set cs. unat r < 0x80000000"
    and "insert_calls cs S0 = Some S"
  shows "canonical S \<and> set (members S) = set (members S0) \<union> (\<lambda>(pre, r, post, al). unat r) ` set cs"
  using assms
proof (induction cs arbitrary: S0)
  case Nil
  then show ?case by simp
next
  case (Cons c cs)
  obtain pre r post al where c: "c = (pre, r, post, al)"
    by (cases c)
  from Cons.prems(3) obtain j S1 al1 where
    A: "addutf S0 (pre @ utf8_encode r @ post) (length pre) al = Some (Some j, S1, al1)"
    and N: "insert_calls cs S1 = Some S"
    by (auto simp: c split: option.splits prod.splits)
  from Cons.prems(2) have r: "unat r < 0x80000000"
    and rs: "\<forall>(pre, r, post, al)\<in>set cs. unat r < 0x80000000"
    by (auto simp: c)
  note R = addutf_rune [OF Cons.prems(1) r refl A]
  from Cons.IH [OF R(1) rs N] R(2) show ?case
    by (auto simp: c)
qed

lemma utf8_encode_nonzero:
  assumes "r \<noteq> 0" and "unat r < 0x80000000"
  shows "\<exists>b rest. utf8_encode r = b # rest \<and> b \<noteq> 0"
proof -
  from assms(2) obtain b rest where e: "utf8_encode r = b # rest"
    and R: "rune_at (b # rest @ []) 0 = unat r" and len: "enc_len b = Suc (length rest)"
    by (rule utf8_encode_cases) blast
  have "b \<noteq> 0"
  proof
    assume b: "b = 0"
    with len have "rest = []" by (simp add: enc_len_def)
    with R b enc1(1) [of 0 "[]"] have "unat r = 0" by simp
    with assms(1) show False by (simp add: unat_eq_0)
  qed
  with e show ?thesis by blast
qed

lemma prunes_loop_runes:
  assumes "canonical S0" and "\<forall>r\<in>set rs. r \<noteq> 0 \<and> unat r < 0x80000000"
    and "s = pre @ concat (map utf8_encode rs) @ 0 # post"
    and "plenty (sum_list (map blocks_needed rs)) al"
  shows "\<exists>S al'. prunes_loop S0 s (length pre) al
           = Some (Some (length pre + length (concat (map utf8_encode rs))), S, al')
       \<and> canonical S \<and> set (members S) = set (members S0) \<union> unat ` set rs"
  using assms
proof (induction rs arbitrary: S0 pre al)
  case Nil
  then have "rd s (length pre) = Some 0"
    by (simp add: rd_def)
  then have "prunes_loop S0 s (length pre) al = Some (Some (length pre), S0, al)"
    by (subst prunes_loop.simps) simp
  with Nil.prems(1) show ?case by simp
next
  case (Cons r rs)
  from Cons.prems(2) have r0: "r \<noteq> 0" and r: "unat r < 0x80000000"
    and rs: "\<forall>r\<in>set rs. r \<noteq> 0 \<and> unat r < 0x80000000"
    by simp_all
  from Cons.prems(3) have s1: "s = pre @ utf8_encode r @ (concat (map utf8_encode rs) @ 0 # post)"
    and s2: "s = (pre @ utf8_encode r) @ concat (map utf8_encode rs) @ 0 # post"
    by simp_all
  from Cons.prems(1) have wf: "wf_set S0" by (simp add: canonical_iff)
  from Cons.prems(4) have "plenty (blocks_needed r + sum_list (map blocks_needed rs)) al"
    by simp
  from addutf_rune_plenty [OF wf r s1 this] obtain j1 S1 al1 where
    A: "addutf S0 s (length pre) al = Some (Some j1, S1, al1)"
    and p: "plenty (sum_list (map blocks_needed rs)) al1"
    by blast
  note R = addutf_rune [OF Cons.prems(1) r s1 A]
  from utf8_encode_nonzero [OF r0 r] obtain b rest where "utf8_encode r = b # rest" "b \<noteq> 0"
    by blast
  then have "rd s (length pre) = Some b" "b \<noteq> 0"
    by (simp_all add: rd_def s1)
  with A have step: "prunes_loop S0 s (length pre) al = prunes_loop S1 s j1 al1"
    by (subst prunes_loop.simps) simp
  from Cons.IH [OF R(1) rs s2 p] obtain S al' where
    "prunes_loop S1 s (length (pre @ utf8_encode r)) al1
       = Some (Some (length (pre @ utf8_encode r) + length (concat (map utf8_encode rs))), S, al')"
    "canonical S" "set (members S) = set (members S1) \<union> unat ` set rs"
    by blast
  with step R(2,3) show ?case
    by (intro exI [of _ S] exI [of _ al']) auto
qed

lemma canonical_visits_set:
  assumes "canonical S" and "set (members S) = unat ` A"
  shows "foreach S fcn w = Some (fold fcn (sorted_list_of_set A) w)"
    and "visits S = Some (sorted_list_of_set A)"
proof -
  from assms(1) have wf: "wf_set S" by (simp add: canonical_iff)
  let ?vs = "map of_nat (members S) :: rune list"
  note srt = canonical_sorted [OF assms(1)]
  have "sorted_wrt (<) ?vs"
    using srt by (intro sorted_of_nat) auto
  then have sd: "sorted ?vs" "distinct ?vs"
    by (simp_all only: strict_sorted_iff)
  have "set ?vs = A"
    by (simp add: assms(2) image_image)
  with sd have "sorted_list_of_set A = ?vs"
    using sorted_list_of_set.idem_if_sorted_distinct by blast
  then show "foreach S fcn w = Some (fold fcn (sorted_list_of_set A) w)"
    and "visits S = Some (sorted_list_of_set A)"
    by (simp_all add: foreach_members [OF wf] visits_members [OF wf])
qed

lemma fold_prune: "fold prune xs ys = ys @ xs"
  by (induction xs arbitrary: ys) (auto simp: prune_def)

lemma prunes_runes:
  assumes "\<forall>r\<in>set rs. r \<noteq> 0 \<and> unat r < 0x80000000"
    and "plenty (sum_list (map blocks_needed rs)) al"
  shows "prunes (concat (map utf8_encode rs) @ [0]) al = Some (0, sorted_list_of_set (set rs))"
proof -
  from prunes_loop_runes [OF canonical_zero_block assms(1) _ assms(2), of _ "[]" "[]"]
  obtain S al' where L: "prunes_loop zero_block (concat (map utf8_encode rs) @ [0]) 0 al
       = Some (Some (length (concat (map utf8_encode rs))), S, al')"
    and S: "canonical S" "set (members S) = unat ` set rs"
    by (auto simp: members_zero_block)
  from canonical_visits_set(1) [OF S, of prune "[]"] L show ?thesis
    by (simp add: prunes_def fold_prune)
qed

lemma rune_below: "(r :: rune) < 0x80000000 \<longleftrightarrow> unat r < 0x80000000"
  by (simp add: word_less_nat_alt)

lemma insert_calls_plenty:
  assumes "wf_set S0" and "\<forall>(pre, r, post, al)\<in>set cs. unat r < 0x80000000 \<and> plenty (blocks_needed r) al"
  shows "\<exists>S. insert_calls cs S0 = Some S"
  using assms
proof (induction cs arbitrary: S0)
  case Nil
  then show ?case by simp
next
  case (Cons c cs)
  obtain pre r post al where c: "c = (pre, r, post, al)"
    by (cases c)
  from Cons.prems(2) have r: "unat r < 0x80000000" and p: "plenty (blocks_needed r + 0) al"
    and rs: "\<forall>(pre, r, post, al)\<in>set cs. unat r < 0x80000000 \<and> plenty (blocks_needed r) al"
    by (auto simp: c)
  from addutf_rune_plenty [OF Cons.prems(1) r refl p] obtain j S1 al1 where
    A: "addutf S0 (pre @ utf8_encode r @ post) (length pre) al = Some (Some j, S1, al1)"
    by blast
  from Cons.IH [OF addutf_success(1) [OF A Cons.prems(1)] rs] A show ?case
    by (simp add: c)
qed

lemma clo6_leading: "list_all (\<lambda>c. clo6 ! c = leading_ones6 c) [0..<64]"
  by code_simp

lemma rune_at_ascii:
  assumes "i < length s" and "s ! i < 0x80"
  shows "rune_at s i = unat (s ! i)"
proof -
  from assms(2) have x: "unat (s ! i) < 0x80"
    by (simp add: word_less_nat_alt)
  from assms(1) have "s = take i s @ s ! i # drop (Suc i) s" and "length (take i s) = i"
    by (simp_all add: id_take_nth_drop)
  with rune_at_append [of "take i s" "s ! i # drop (Suc i) s"]
  have "rune_at s i = rune_at (s ! i # drop (Suc i) s) 0"
    by simp
  with enc1(1) [OF x, of "drop (Suc i) s"] show ?thesis
    by simp
qed

lemma replicate_update_same: "(replicate n x)[i := x] = replicate n x"
  by (cases "i < n") (simp_all add: list_eq_iff_nth_eq nth_list_update)

lemma wf_set_addutf:
  assumes "wf_set S" and "addutf S s i al = Some (r, S', al')"
  shows "wf_set S'"
proof (cases r)
  case None
  with addutf_failure [OF _ assms(1)] assms(2) show ?thesis by blast
next
  case (Some j)
  with addutf_success(1) [OF _ assms(1)] assms(2) show ?thesis by blast
qed

subsection \<open>foreach on the memory\<close>

lemma fold_opt_None:
  "fold (\<lambda>c \<sigma>o. case \<sigma>o of None \<Rightarrow> None | Some \<sigma>' \<Rightarrow> F c \<sigma>') cs None = None"
  by (induction cs) auto

lemma fold_opt_trace:
  assumes "\<And>c \<tau> \<tau>'. c \<in> set cs \<Longrightarrow> F c \<tau> = Some \<tau>' \<Longrightarrow> \<exists>rs. \<tau>' = fold fcn rs \<tau>"
    and "fold (\<lambda>c \<sigma>o. case \<sigma>o of None \<Rightarrow> None | Some \<sigma>' \<Rightarrow> F c \<sigma>') cs (Some \<sigma>) = Some \<sigma>'"
  shows "\<exists>rs. \<sigma>' = fold fcn rs \<sigma>"
  using assms
proof (induction cs arbitrary: \<sigma>)
  case Nil
  then have "\<sigma>' = fold fcn [] \<sigma>" by simp
  then show ?case by blast
next
  case (Cons c cs)
  show ?case
  proof (cases "F c \<sigma>")
    case None
    with Cons.prems(2) show ?thesis
      by (simp add: fold_opt_None)
  next
    case (Some \<tau>)
    from Cons.prems(1) [of c \<sigma> \<tau>] Some obtain rs1 where 1: "\<tau> = fold fcn rs1 \<sigma>"
      by auto
    from Cons.prems(2) Some
    have "fold (\<lambda>c \<sigma>o. case \<sigma>o of None \<Rightarrow> None | Some \<sigma>' \<Rightarrow> F c \<sigma>') cs (Some \<tau>) = Some \<sigma>'"
      by simp
    moreover have "\<exists>rs. \<tau>' = fold fcn rs \<tau>" if "c \<in> set cs" "F c \<tau> = Some \<tau>'" for c \<tau> \<tau>'
      using that by (intro Cons.prems(1)) simp_all
    ultimately obtain rs2 where "\<sigma>' = fold fcn rs2 \<tau>"
      using Cons.IH by blast
    with 1 have "\<sigma>' = fold fcn (rs1 @ rs2) \<sigma>" by simp
    then show ?thesis by blast
  qed
qed

lemma foreach1_mem_trace:
  "foreach1_mem t n r fcn \<sigma> = Some \<sigma>' \<Longrightarrow> \<exists>rs. \<sigma>' = fold fcn rs \<sigma>"
proof (induction n arbitrary: t r \<sigma> \<sigma>')
  case 0
  from fold_visit_filter [of "\<lambda>c. t AND push_bit c 1 \<noteq> 0" fcn "\<lambda>c. r * 64 + of_nat c" "[0..<64]" \<sigma>]
    "0.prems"
  have "\<sigma>' = fold fcn (map (\<lambda>c. r * 64 + of_nat c) (filter (\<lambda>c. t AND push_bit c 1 \<noteq> 0) [0..<64])) \<sigma>"
    by simp
  then show ?case by blast
next
  case (Suc n)
  show ?case
  proof (cases "t = 0")
    case True
    with Suc.prems have "\<sigma>' = fold fcn [] \<sigma>" by simp
    then show ?thesis by blast
  next
    case False
    let ?F = "\<lambda>c \<sigma>'. case memory \<sigma>' t of None \<Rightarrow> None
        | Some blk \<Rightarrow> if length blk = 64
            then foreach1_mem (blk ! c) n (r * 64 + of_nat c) fcn \<sigma>' else None"
    from Suc.prems False
    have "fold (\<lambda>c \<sigma>o. case \<sigma>o of None \<Rightarrow> None | Some \<sigma>' \<Rightarrow> ?F c \<sigma>') [0..<64] (Some \<sigma>) = Some \<sigma>'"
      by simp
    then show ?thesis
    proof (rule fold_opt_trace [rotated])
      fix c \<tau> \<tau>' assume "?F c \<tau> = Some \<tau>'"
      then obtain blk where "foreach1_mem (blk ! c) n (r * 64 + of_nat c) fcn \<tau> = Some \<tau>'"
        by (auto split: option.splits if_splits)
      then show "\<exists>rs. \<tau>' = fold fcn rs \<tau>" by (rule Suc.IH)
    qed
  qed
qed

lemma foreach_mem_trace:
  assumes "foreach_mem a fcn \<sigma> = Some \<sigma>'"
  shows "\<exists>rs. \<sigma>' = fold fcn rs \<sigma>"
proof -
  let ?F = "\<lambda>c \<sigma>'. case memory \<sigma>' a of None \<Rightarrow> None
      | Some blk \<Rightarrow> if length blk = 64
          then (let n = clo6 ! c; r = of_nat (c mod drop_bit n 64)
                in foreach1_mem (blk ! c) n r fcn \<sigma>') else None"
  from assms
  have "fold (\<lambda>c \<sigma>o. case \<sigma>o of None \<Rightarrow> None | Some \<sigma>' \<Rightarrow> ?F c \<sigma>') [0..<64] (Some \<sigma>) = Some \<sigma>'"
    by (simp add: foreach_mem_def)
  then show ?thesis
  proof (rule fold_opt_trace [rotated])
    fix c \<tau> \<tau>' assume "?F c \<tau> = Some \<tau>'"
    then obtain t n r where "foreach1_mem t n r fcn \<tau> = Some \<tau>'"
      by (auto simp: Let_def split: option.splits if_splits)
    then show "\<exists>rs. \<tau>' = fold fcn rs \<tau>" by (rule foreach1_mem_trace)
  qed
qed

lemma fold_frame:
  assumes "\<And>r \<tau>. memory (fcn r \<tau>) = memory \<tau> \<and> allocator (fcn r \<tau>) = allocator \<tau>"
  shows "memory (fold fcn rs \<sigma>) = memory \<sigma> \<and> allocator (fold fcn rs \<sigma>) = allocator \<sigma>"
  by (induction rs arbitrary: \<sigma>) (simp_all add: assms)

lemma repr_shape: "repr m n w t \<Longrightarrow> shape n t"
proof (induction n arbitrary: w t)
  case 0
  then show ?case by simp
next
  case (Suc n)
  show ?case
  proof (cases "w = 0")
    case True
    with Suc.prems show ?thesis by simp
  next
    case False
    with Suc.prems obtain bw blk where "t = Ptr blk" "length bw = 64"
      "list_all2 (repr m n) bw blk"
      by (auto split: option.splits child.splits)
    moreover from this have "length blk = 64" "\<And>c. c < 64 \<Longrightarrow> repr m n (bw ! c) (blk ! c)"
      by (auto simp: list_all2_conv_all_nth)
    ultimately show ?thesis
      using Suc.IH by (auto simp: list_all_length)
  qed
qed

lemma fold_opt_eq:
  assumes "I \<sigma>"
    and "\<And>c \<tau>. c \<in> set cs \<Longrightarrow> I \<tau> \<Longrightarrow> F c \<tau> = G c \<tau> \<and> (\<forall>\<tau>'. G c \<tau> = Some \<tau>' \<longrightarrow> I \<tau>')"
  shows "fold (\<lambda>c \<sigma>o. case \<sigma>o of None \<Rightarrow> None | Some \<sigma>' \<Rightarrow> F c \<sigma>') cs (Some \<sigma>)
       = fold (\<lambda>c \<sigma>o. case \<sigma>o of None \<Rightarrow> None | Some \<sigma>' \<Rightarrow> G c \<sigma>') cs (Some \<sigma>)"
  using assms
proof (induction cs arbitrary: \<sigma>)
  case Nil
  then show ?case by simp
next
  case (Cons c cs)
  from Cons.prems(2) [of c \<sigma>] Cons.prems(1)
  have FG: "F c \<sigma> = G c \<sigma>" and I: "\<And>\<tau>'. G c \<sigma> = Some \<tau>' \<Longrightarrow> I \<tau>'"
    by auto
  show ?case
  proof (cases "G c \<sigma>")
    case None
    with FG show ?thesis by (simp add: fold_opt_None)
  next
    case (Some \<tau>)
    have "F c \<tau> = G c \<tau> \<and> (\<forall>\<tau>'. G c \<tau> = Some \<tau>' \<longrightarrow> I \<tau>')" if "c \<in> set cs" "I \<tau>" for c \<tau>
      using that by (intro Cons.prems(2)) simp_all
    from Cons.IH [OF I [OF Some] this] FG Some show ?thesis
      by simp
  qed
qed

lemma foreach1_frame:
  assumes "shape n t" and "\<And>r \<tau>. memory (fcn r \<tau>) = memory \<tau>"
    and "foreach1 t n r fcn \<sigma> = Some \<sigma>'"
  shows "memory \<sigma>' = memory \<sigma>"
proof -
  have m: "memory (fold fcn rs \<tau>) = memory \<tau>" for rs \<tau>
    by (induction rs arbitrary: \<tau>) (simp_all add: assms(2))
  from foreach1_elems [OF assms(1), of "unat r" fcn \<sigma>] assms(3)
  have "\<sigma>' = fold fcn (map of_nat (elems n t (unat r))) \<sigma>"
    by simp
  then show ?thesis by (simp add: m)
qed

lemma foreach1_mem_repr:
  fixes fcn :: "rune \<Rightarrow> 'w machine \<Rightarrow> 'w machine"
  assumes "\<And>r \<tau>. memory (fcn r \<tau>) = memory \<tau>"
  shows "repr (memory \<sigma>) n w t \<Longrightarrow> foreach1_mem w n r fcn \<sigma> = foreach1 t n r fcn \<sigma>"
proof (induction n arbitrary: w t r \<sigma>)
  case 0
  then show ?case by simp
next
  case (Suc n)
  show ?case
  proof (cases "w = 0")
    case True
    with Suc.prems show ?thesis by simp
  next
    case False
    with Suc.prems obtain bw blk where mw: "memory \<sigma> w = Some bw" and t: "t = Ptr blk"
      and len: "length bw = 64" and all: "list_all2 (repr (memory \<sigma>) n) bw blk"
      by (auto split: option.splits child.splits)
    from all len have lenb: "length blk = 64"
      and ch: "\<And>c. c < 64 \<Longrightarrow> repr (memory \<sigma>) n (bw ! c) (blk ! c)"
      by (auto simp: list_all2_conv_all_nth)
    let ?F = "\<lambda>c \<sigma>'. case memory \<sigma>' w of None \<Rightarrow> None
        | Some blk \<Rightarrow> if length blk = 64
            then foreach1_mem (blk ! c) n (r * 64 + of_nat c) fcn \<sigma>' else None"
    let ?G = "\<lambda>c \<sigma>'. foreach1 (blk ! c) n (r * 64 + of_nat c) fcn \<sigma>'"
    have "fold (\<lambda>c \<sigma>o. case \<sigma>o of None \<Rightarrow> None | Some \<sigma>' \<Rightarrow> ?F c \<sigma>') [0..<64] (Some \<sigma>)
        = fold (\<lambda>c \<sigma>o. case \<sigma>o of None \<Rightarrow> None | Some \<sigma>' \<Rightarrow> ?G c \<sigma>') [0..<64] (Some \<sigma>)"
    proof (rule fold_opt_eq [where I = "\<lambda>\<tau>. memory \<tau> = memory \<sigma>"])
      show "memory \<sigma> = memory \<sigma>" ..
    next
      fix c :: nat and \<tau> :: "'w machine"
      assume c: "c \<in> set [0..<64]" and \<tau>: "memory \<tau> = memory \<sigma>"
      then have c64: "c < 64" by simp
      from ch [OF c64] \<tau> have r: "repr (memory \<tau>) n (bw ! c) (blk ! c)"
        by simp
      from Suc.IH [OF r] mw len \<tau> have "?F c \<tau> = ?G c \<tau>"
        by simp
      moreover have "memory \<tau>' = memory \<sigma>" if "?G c \<tau> = Some \<tau>'" for \<tau>'
        using foreach1_frame [OF repr_shape [OF r] assms that] \<tau> by simp
      ultimately show "?F c \<tau> = ?G c \<tau> \<and> (\<forall>\<tau>'. ?G c \<tau> = Some \<tau>' \<longrightarrow> memory \<tau>' = memory \<sigma>)"
        by blast
    qed
    with False lenb show ?thesis
      by (simp add: t)
  qed
qed

lemma repr_set_wf: "repr_set m a S \<Longrightarrow> wf_set S"
  by (rule wf_setI)
    (auto simp: repr_set_def list_all_iff dest: repr_shape split: option.splits)

lemma foreach_mem_repr:
  fixes fcn :: "rune \<Rightarrow> 'w machine \<Rightarrow> 'w machine"
  assumes "\<And>r \<tau>. memory (fcn r \<tau>) = memory \<tau>" and "repr_set (memory \<sigma>) a S"
  shows "foreach_mem a fcn \<sigma> = foreach S fcn \<sigma>"
proof -
  from assms(2) obtain bw where ma: "memory \<sigma> a = Some bw" and len: "length bw = 64"
    and lenS: "length S = 64"
    and ch: "\<And>c. c < 64 \<Longrightarrow> repr (memory \<sigma>) (clo6 ! c) (bw ! c) (S ! c)"
    by (auto simp: repr_set_def list_all_iff split: option.splits)
  show ?thesis
    unfolding foreach_mem_def foreach_def
  proof (simp only: lenS if_True simp_thms,
      intro fold_opt_eq [where I = "\<lambda>\<tau>. memory \<tau> = memory \<sigma>"], goal_cases)
    case 1
    show ?case ..
  next
    case (2 c \<tau>)
    then have c64: "c < 64" and \<tau>: "memory \<tau> = memory \<sigma>"
      by simp_all
    from ch [OF c64] \<tau> have r: "repr (memory \<tau>) (clo6 ! c) (bw ! c) (S ! c)"
      by simp
    have frame: "memory \<tau>' = memory \<sigma>"
      if "foreach1 (S ! c) (clo6 ! c) (of_nat (c mod drop_bit (clo6 ! c) 64)) fcn \<tau> = Some \<tau>'"
      for \<tau>'
      using foreach1_frame [OF repr_shape [OF r] assms(1) that] \<tau> by simp
    have eq: "foreach1_mem (bw ! c) (clo6 ! c) x fcn \<tau> = foreach1 (S ! c) (clo6 ! c) x fcn \<tau>" for x
      by (rule foreach1_mem_repr [OF assms(1) r])
    show ?case
      apply (intro conjI allI impI)
       apply (simp add: Let_def ma len \<tau> eq)
      apply (simp only: Let_def)
      apply (erule frame)
      done
  qed
qed

text \<open>Every well-formed set is held by the memory that lays it out.\<close>

lemma enc_path_snoc: "enc_path (p @ [c]) = enc_path p * 64 + c"
  by (simp add: enc_path_def)

lemma enc_path_pos: "1 \<le> enc_path p"
  by (induction p rule: rev_induct) (simp_all add: enc_path_snoc, simp add: enc_path_def)

lemma enc_path_bound: "list_all (\<lambda>c. c < 64) p \<Longrightarrow> enc_path p < 64 ^ Suc (length p)"
proof (induction p rule: rev_induct)
  case Nil
  show ?case by (simp add: enc_path_def)
next
  case (snoc c p)
  then have "enc_path p < 64 ^ Suc (length p)" and "c < 64"
    by simp_all
  then have "enc_path p * 64 + c < 64 ^ Suc (length p) * 64"
    by simp
  then show ?case
    by (simp add: enc_path_snoc mult.commute)
qed

lemma dec_enc_path: "list_all (\<lambda>c. c < 64) p \<Longrightarrow> dec_path (enc_path p) = p"
proof (induction p rule: rev_induct)
  case Nil
  show ?case by (simp add: enc_path_def)
next
  case (snoc c p)
  then have IH: "dec_path (enc_path p) = p" and c: "c < 64"
    by simp_all
  from enc_path_pos [of p] have "\<not> enc_path p * 64 + c < 64"
    by simp
  then have "dec_path (enc_path p * 64 + c)
      = dec_path ((enc_path p * 64 + c) div 64) @ [(enc_path p * 64 + c) mod 64]"
    by (subst dec_path.simps) simp
  with c IH show ?case
    by (simp add: enc_path_snoc)
qed

lemma node_snoc:
  "node S p = Some blk \<Longrightarrow> c < length blk \<Longrightarrow> blk ! c = Ptr b \<Longrightarrow> node S (p @ [c]) = Some b"
  by (induction S p rule: node.induct) (auto split: if_splits child.splits)

lemma enc_path_unat:
  assumes "list_all (\<lambda>c. c < 64) p" and "length p \<le> 7"
  shows "unat (of_nat (enc_path p) :: 64 word) = enc_path p"
    and "(of_nat (enc_path p) :: 64 word) \<noteq> 0"
proof -
  have "enc_path p < 64 ^ Suc (length p)"
    using assms(1) by (rule enc_path_bound)
  also have "(64::nat) ^ Suc (length p) \<le> 64 ^ 8"
    using assms(2) by (intro power_increasing) simp_all
  also have "(64::nat) ^ 8 < 2 ^ 64"
    by simp
  finally have lt: "enc_path p < 2 ^ 64" .
  then show u: "unat (of_nat (enc_path p) :: 64 word) = enc_path p"
    by (simp add: unsigned_of_nat take_bit_nat_eq_self)
  from enc_path_pos [of p] u show "(of_nat (enc_path p) :: 64 word) \<noteq> 0"
    by (metis not_one_le_zero unat_0)
qed

lemma repr_tree_memory:
  assumes "node S p = Some blk" and "list_all (\<lambda>c. c < 64) p" and "c < 64"
    and "length p + n \<le> 6" and "c < length blk" and "shape n (blk ! c)"
  shows "repr (tree_memory S) n (slot_word p c (blk ! c)) (blk ! c)"
  using assms
proof (induction n arbitrary: p blk c)
  case 0
  then show ?case
    by (cases "blk ! c") simp_all
next
  case (Suc n)
  show ?case
  proof (cases "blk ! c")
    case (Bits w)
    with Suc.prems show ?thesis
      by simp
  next
    case (Ptr b)
    let ?q = "p @ [c]"
    have q: "list_all (\<lambda>c. c < 64) ?q" "length ?q \<le> 7"
      using Suc.prems by simp_all
    have nq: "node S ?q = Some b"
      using Suc.prems(1,5) Ptr by (rule node_snoc)
    have lb: "length b = 64" and sb: "\<And>c'. c' < 64 \<Longrightarrow> shape n (b ! c')"
      using Suc.prems(6) Ptr by (simp_all add: list_all_length)
    have mem: "tree_memory S (of_nat (enc_path ?q))
        = Some (map (\<lambda>c'. slot_word ?q c' (b ! c')) [0..<64])"
      using enc_path_unat [OF q] dec_enc_path [OF q(1)] nq
      by (simp add: tree_memory_def)
    have "repr (tree_memory S) n (slot_word ?q c' (b ! c')) (b ! c')" if "c' < 64" for c'
      using nq q(1) that _ _ sb [OF that]
      by (rule Suc.IH) (use Suc.prems lb that in simp_all)
    then have "list_all2 (repr (tree_memory S) n) (map (\<lambda>c'. slot_word ?q c' (b ! c')) [0..<64]) b"
      by (simp add: list_all2_conv_all_nth lb)
    with mem enc_path_unat(2) [OF q] Ptr show ?thesis
      by simp
  qed
qed

lemma repr_set_tree_memory:
  assumes "wf_set S"
  shows "repr_set (tree_memory S) 1 S"
proof -
  have len: "length S = 64" and sh: "\<And>c. c < 64 \<Longrightarrow> shape (clo6 ! c) (S ! c)"
    using assms by (simp_all add: wf_set_length wf_set_shape)
  have d: "dec_path (Suc 0) = []"
    by simp
  have mem: "tree_memory S 1 = Some (map (\<lambda>c. slot_word [] c (S ! c)) [0..<64])"
    by (simp add: tree_memory_def d)
  have "repr (tree_memory S) (clo6 ! c) (slot_word [] c (S ! c)) (S ! c)" if "c < 64" for c
  proof (rule repr_tree_memory)
    show "node S [] = Some S" by simp
    show "list_all (\<lambda>c. c < 64) []" by simp
    show "c < 64" by (rule that)
    show "length [] + clo6 ! c \<le> 6" using clo6_nth [OF that] by simp
    show "c < length S" using that len by simp
    show "shape (clo6 ! c) (S ! c)" by (rule sh [OF that])
  qed
  with mem len show ?thesis
    by (simp add: repr_set_def list_all_iff)
qed

section \<open>The claims of the specification\<close>

text \<open>
  C1. Round trip. Let \<open>rs\<close> be any sequence of runes below \<open>2^31\<close> (this covers every rune
  of valid UTF-8) and let the buffer hold their non-overlong encodings one after the other.
  Calling \<open>addutf\<close> once per encoded rune, starting from the empty set, succeeds whenever
  the allocations it needs succeed; and whenever all the calls succeed, the cursor ends behind
  the last encoding and \<open>foreach\<close> visits exactly the runes that occur in \<open>rs\<close>, each of
  them once, however often it occurs. The program \<open>prunes\<close> does the same on a
  zero-terminated string of runes other than U+0000: it prints the distinct runes of the
  string, each once, in ascending order.
\<close>

theorem insert_then_foreach_roundtrip:
  assumes "\<forall>r\<in>set rs. r < 0x80000000"
  shows "(plenty (sum_list (map blocks_needed rs)) al \<longrightarrow>
           (\<exists>j S al'. addutf_n (length rs) zero_block (concat (map utf8_encode rs)) 0 al
               = Some (Some j, S, al')))
       \<and> (\<forall>j S al'. addutf_n (length rs) zero_block (concat (map utf8_encode rs)) 0 al
               = Some (Some j, S, al') \<longrightarrow>
             j = length (concat (map utf8_encode rs))
             \<and> (\<exists>vs. visits S = Some vs \<and> set vs = set rs \<and> distinct vs))
       \<and> (0 \<notin> set rs \<and> plenty (sum_list (map blocks_needed rs)) al \<longrightarrow>
             prunes (concat (map utf8_encode rs) @ [0]) al = Some (0, sorted_list_of_set (set rs)))"
proof (intro conjI impI allI)
  from assms have rs: "\<forall>r\<in>set rs. unat r < 0x80000000"
    by (simp add: rune_below)
  {
    assume "0 \<notin> set rs \<and> plenty (sum_list (map blocks_needed rs)) al"
    with rs have "\<forall>r\<in>set rs. r \<noteq> 0 \<and> unat r < 0x80000000"
      and "plenty (sum_list (map blocks_needed rs)) al"
      by auto
    then show "prunes (concat (map utf8_encode rs) @ [0]) al
        = Some (0, sorted_list_of_set (set rs))"
      by (rule prunes_runes)
  }
  {
    assume "plenty (sum_list (map blocks_needed rs)) al"
    from addutf_n_plenty [OF wf_zero_block rs _ this, of _ "[]" "[]"]
    show "\<exists>j S al'. addutf_n (length rs) zero_block (concat (map utf8_encode rs)) 0 al
        = Some (Some j, S, al')"
      by simp
  }
  fix j S al'
  assume "addutf_n (length rs) zero_block (concat (map utf8_encode rs)) 0 al
      = Some (Some j, S, al')"
  with addutf_n_runes [OF canonical_zero_block rs, of _ "[]" "[]" al j S al']
  have S: "canonical S" "set (members S) = unat ` set rs"
    and j: "j = length (concat (map utf8_encode rs))"
    by (simp_all add: members_zero_block)
  show "j = length (concat (map utf8_encode rs))" by (rule j)
  from canonical_visits_set(2) [OF S]
  show "\<exists>vs. visits S = Some vs \<and> set vs = set rs \<and> distinct vs"
    by simp
qed

theorem insert_then_foreach_roundtrip_witness:
  "\<exists>j S al'. addutf_n (length [0x20AC, 0x61, 0x20AC :: rune]) zero_block
         (concat (map utf8_encode [0x20AC, 0x61, 0x20AC])) 0 [True, True]
       = Some (Some j, S, al')
     \<and> j = length (concat (map utf8_encode [0x20AC, 0x61, 0x20AC]))
     \<and> (\<exists>vs. visits S = Some vs \<and> set vs = set [0x20AC, 0x61, 0x20AC] \<and> distinct vs)
     \<and> prunes (concat (map utf8_encode [0x20AC, 0x61, 0x20AC]) @ [0]) [True, True]
         = Some (0, sorted_list_of_set (set [0x20AC, 0x61, 0x20AC]))"
proof -
  have h: "\<forall>r\<in>set [0x20AC, 0x61, 0x20AC :: rune]. r < 0x80000000"
    by simp
  have z: "0 \<notin> set [0x20AC, 0x61, 0x20AC :: rune]"
    by simp
  have "blocks_needed 0x20AC = 1" "blocks_needed 0x61 = 0"
    by (simp_all add: blocks_needed_def utf8_encode_def)
  then have p: "plenty (sum_list (map blocks_needed [0x20AC, 0x61, 0x20AC])) [True, True]"
    by (simp add: plenty_def)
  from insert_then_foreach_roundtrip [OF h, of "[True, True]"] p z show ?thesis
    by blast
qed

text \<open>
  C2. Ascending order. For every set built from the empty set by a sequence of successful
  calls of \<open>addutf\<close> on non-overlong encodings (each call with a buffer and an allocator of
  its own), the arguments that \<open>foreach\<close> passes to the callback are strictly increasing.
  Such sequences of calls succeed whenever their allocations do.
\<close>

theorem foreach_ascending:
  assumes "\<forall>(pre, r, post, al)\<in>set cs. r < 0x80000000"
  shows "((\<forall>(pre, r, post, al)\<in>set cs. plenty (blocks_needed r) al) \<longrightarrow>
           (\<exists>S. insert_calls cs zero_block = Some S))
       \<and> (\<forall>S. insert_calls cs zero_block = Some S \<longrightarrow>
             (\<exists>vs. visits S = Some vs \<and> sorted_wrt (<) vs))"
proof (intro conjI impI allI)
  from assms have rs: "\<forall>(pre, r, post, al)\<in>set cs. unat r < 0x80000000"
    by (auto simp: rune_below)
  {
    assume "\<forall>(pre, r, post, al)\<in>set cs. plenty (blocks_needed r) al"
    with rs have "\<forall>(pre, r, post, al)\<in>set cs. unat r < 0x80000000 \<and> plenty (blocks_needed r) al"
      by auto
    from insert_calls_plenty [OF wf_zero_block this]
    show "\<exists>S. insert_calls cs zero_block = Some S" .
  }
  fix S assume "insert_calls cs zero_block = Some S"
  from insert_calls_canonical [OF canonical_zero_block rs this] have "canonical S"
    by simp
  from canonical_visits [OF this] show "\<exists>vs. visits S = Some vs \<and> sorted_wrt (<) vs"
    by blast
qed

theorem foreach_ascending_witness:
  "\<exists>S vs. insert_calls [([], 0x1D508, [], [True, True]), ([0x2A], 0x61, [0x2A], []),
         ([], 0x20AC, [0], [True])] zero_block = Some S
     \<and> visits S = Some vs \<and> sorted_wrt (<) vs"
proof -
  let ?cs = "[([], 0x1D508, [], [True, True]), ([0x2A], 0x61, [0x2A], []),
         ([], 0x20AC, [0], [True])] :: (byte list \<times> rune \<times> byte list \<times> bool list) list"
  have h: "\<forall>(pre, r, post, al)\<in>set ?cs. r < 0x80000000"
    by simp
  have p: "\<forall>(pre, r, post, al)\<in>set ?cs. plenty (blocks_needed r) al"
    by (simp add: blocks_needed_def utf8_encode_def plenty_def)
  from foreach_ascending [OF h] p show ?thesis
    by blast
qed

text \<open>
  C3 (as stated, refuted). The specification gives \<open>addutf\<close> two failure results that a
  caller can tell apart. The code returns \<^verbatim>\<open>NULL\<close> for both: on the empty set, a buffer that
  starts with a continuation byte and a well-formed three-byte encoding whose allocation
  fails give the same returned pointer, the same set and the same allocator.
\<close>

theorem addutf_failures_same_result:
  "addutf zero_block [0x80] 0 [] = Some (None, zero_block, [])
   \<and> addutf zero_block [0xE2, 0x82, 0xAC] 0 [] = Some (None, zero_block, [])
   \<and> addutf zero_block [0x80] 0 [] = addutf zero_block [0xE2, 0x82, 0xAC] 0 []"
  by (simp add: addutf_def rd_def Let_def clo6_def zero_block_def replicate_update_same)

text \<open>
  C3 (amended). \<open>addutf\<close> has one failure result, \<^verbatim>\<open>NULL\<close>, and exactly two causes for it:
  whenever it returns \<^verbatim>\<open>NULL\<close>, either the first byte is a continuation byte (and nothing
  has changed), or the first byte is a leading byte and a call of \<^verbatim>\<open>calloc\<close> failed. The
  result does not tell the two apart; the byte at the cursor does.
\<close>

theorem addutf_null_causes:
  assumes "addutf S s i al = Some (None, S', al')"
  shows "(0x80 \<le> s ! i \<and> s ! i < 0xC0 \<and> S' = S \<and> al' = al)
       \<or> (0xC0 \<le> s ! i \<and> alloc_failed al al')"
  using assms
proof (cases rule: addutf_cases)
  case malformed
  then show ?thesis by simp
next
  case (walk t')
  from walk_null_alloc [OF walk(3)] have af: "alloc_failed al al'" .
  have "0xC0 \<le> s ! i"
  proof (rule ccontr)
    assume "\<not> 0xC0 \<le> s ! i"
    with walk(2) have "s ! i < 0x80" by (simp add: not_le)
    then have "unat (s ! i) div 64 < 2"
      by (simp add: word_less_nat_alt)
    then have "clo6 ! (unat (s ! i) div 64) = 0"
      by (simp add: clo6_nth)
    with walk(3) \<open>\<not> 0xC0 \<le> s ! i\<close> show False
      by (auto simp: lead_ix_def rd_def split: if_splits child.splits)
  qed
  with af show ?thesis by simp
qed

theorem addutf_null_causes_witness:
  "(0x80 \<le> [0xE2 :: byte, 0x82, 0xAC] ! 0 \<and> [0xE2 :: byte, 0x82, 0xAC] ! 0 < 0xC0
      \<and> zero_block = zero_block \<and> [] = ([] :: bool list))
   \<or> (0xC0 \<le> [0xE2 :: byte, 0x82, 0xAC] ! 0 \<and> alloc_failed [] [])"
proof -
  have "addutf zero_block [0xE2, 0x82, 0xAC] 0 [] = Some (None, zero_block, [])"
    by (simp add: addutf_def rd_def Let_def clo6_def zero_block_def replicate_update_same)
  from addutf_null_causes [OF this] show ?thesis .
qed

text \<open>
  C4. For every set and every cursor whose first byte is in the range 0x80 to 0xBF (a bare
  continuation byte in leading position), \<open>addutf\<close> reports the failure (it returns
  \<^verbatim>\<open>NULL\<close>) and leaves the set and the allocator as they were, so that \<open>foreach\<close> visits
  what it visited before the call; on the empty set it visits nothing.
\<close>

theorem addutf_continuation_byte:
  assumes "i < length s" and "0x80 \<le> s ! i" and "s ! i \<le> 0xBF"
  shows "addutf S s i al = Some (None, S, al)
       \<and> (\<forall>r S' al'. addutf S s i al = Some (r, S', al') \<longrightarrow> foreach S' fcn w = foreach S fcn w)
       \<and> (S = zero_block \<longrightarrow> visits S = Some [])"
proof -
  from assms(2) have "\<not> s ! i < 0x80"
    by (simp add: not_less)
  moreover from assms(3) have "\<not> 0xC0 \<le> s ! i"
    by (simp add: word_le_nat_alt)
  ultimately have "addutf S s i al = Some (None, S, al)"
    using assms(1) by (simp add: addutf_def rd_def)
  then show ?thesis
    by (simp add: visits_zero_block)
qed

theorem addutf_continuation_byte_witness:
  "addutf zero_block [0x9D] 0 [True] = Some (None, zero_block, [True])
   \<and> visits zero_block = Some []"
  using addutf_continuation_byte [of 0 "[0x9D]" zero_block "[True]" record_visit "[]"]
  by simp

text \<open>
  C5. For every ASCII byte (top bit clear) at the cursor of a well-formed set, \<open>addutf\<close>
  succeeds without allocating, returns the cursor advanced by exactly one, and makes the rune
  of that byte a member: \<open>foreach\<close> visits it. Inserted into the empty set, it is the only
  visit; so the single byte 0x41 makes \<open>foreach\<close> report exactly 0x41.
\<close>

theorem addutf_ascii:
  assumes "wf_set S" and "i < length s" and "s ! i < 0x80"
  shows "\<exists>S' vs. addutf S s i al = Some (Some (i + 1), S', al)
           \<and> visits S' = Some vs \<and> ucast (s ! i) \<in> set vs
           \<and> (S = zero_block \<longrightarrow> vs = [ucast (s ! i)])"
proof -
  let ?b = "s ! i"
  let ?c = "unat ?b div 64"
  from assms(3) have x: "unat ?b < 0x80" and nle: "\<not> 0xC0 \<le> ?b"
    by (simp_all add: word_less_nat_alt word_le_nat_alt)
  then have c: "?c < 64" by simp
  from x have n: "clo6 ! ?c = 0"
    by (simp add: clo6_nth)
  from wf_set_shape [OF assms(1) c] n obtain w where w: "S ! ?c = Bits w"
    by (cases "S ! ?c") auto
  let ?S' = "S[?c := Bits (w OR push_bit (unat ?b mod 64) 1)]"
  from assms(2,3) nle c w have A: "addutf S s i al = Some (Some (i + 1), ?S', al)"
    by (simp add: addutf_def rd_def Let_def wf_set_length [OF assms(1)])
  note R = rune_at_ascii [OF assms(2,3)]
  have u: "(of_nat (unat ?b) :: rune) = ucast ?b"
    by simp
  from addutf_success(1) [OF A assms(1)] have wf': "wf_set ?S'" .
  from addutf_members [OF A assms(1)] R have M: "set (members ?S') = insert (unat ?b) (set (members S))"
    by simp
  then have "ucast ?b \<in> set (map of_nat (members ?S') :: rune list)"
    using u by (metis image_eqI insertI1 set_map)
  moreover have "map of_nat (members ?S') = [ucast ?b :: rune]" if "S = zero_block"
  proof -
    have ur: "unat (ucast ?b :: rune) = unat ?b"
      using x by (simp add: unsigned_ucast_eq take_bit_nat_eq_self)
    with x have e: "utf8_encode (ucast ?b) = [?b]"
      by (simp add: utf8_encode_def)
    from assms(2) have s: "s = take i s @ utf8_encode (ucast ?b) @ drop (Suc i) s"
      and l: "length (take i s) = i"
      by (simp_all add: e id_take_nth_drop)
    from x ur have r: "unat (ucast ?b :: rune) < 0x80000000" by simp
    from A l have A': "addutf zero_block s (length (take i s)) al = Some (Some (i + 1), ?S', al)"
      by (simp add: that)
    from addutf_rune(1,2) [OF canonical_zero_block r s A']
    have "canonical ?S'" "set (members ?S') = unat ` {ucast ?b :: rune}"
      by (simp_all add: members_zero_block)
    from canonical_visits_set(2) [OF this] visits_members [OF wf'] show ?thesis
      by simp
  qed
  ultimately show ?thesis
    using A visits_members [OF wf'] by auto
qed

theorem addutf_ascii_witness:
  "\<exists>S'. addutf zero_block [0x41] 0 [] = Some (Some 1, S', []) \<and> visits S' = Some [0x41]"
  using addutf_ascii [OF wf_zero_block, of 0 "[0x41]" "[]"] by simp

text \<open>
  C6. For every first byte with the top two bits set (\<open>0xC0\<close> or more) at the cursor of a
  well-formed set, \<open>addutf\<close> takes \<open>n\<close> from the table \<open>clo6\<close> at the low six bits of the
  byte, and that entry is the number of leading one-bits of those six bits. A call that
  succeeds returns the cursor advanced by \<open>1 + (n + 1)\<close>, the first byte and exactly \<open>n + 1\<close>
  further bytes, which all lie in the buffer; and the call succeeds whenever those bytes lie
  in the buffer and the next \<open>n\<close> allocations succeed.
\<close>

theorem addutf_leading_byte:
  assumes "wf_set S" and "i < length s" and "0xC0 \<le> s ! i"
  defines "n \<equiv> clo6 ! (unat (s ! i) mod 64)"
  shows "n = leading_ones6 (unat (s ! i) mod 64)
       \<and> (\<forall>j S' al'. addutf S s i al = Some (Some j, S', al') \<longrightarrow>
             j = i + 1 + (n + 1) \<and> j \<le> length s)
       \<and> (i + 1 + n < length s \<and> plenty n al \<longrightarrow>
             (\<exists>S' al'. addutf S s i al = Some (Some (i + 1 + (n + 1)), S', al')))"
proof (intro conjI impI allI)
  let ?c = "unat (s ! i) mod 64"
  have c: "?c < 64" by simp
  with clo6_leading show "n = leading_ones6 ?c"
    by (simp add: n_def list_all_iff)
  {
    fix j S' al'
    assume A: "addutf S s i al = Some (Some j, S', al')"
    from addutf_success(4) [OF A assms(1)] assms(3) show "j = i + 1 + (n + 1)"
      by (simp add: enc_len_def n_def)
    from addutf_success(5) [OF A assms(1)] show "j \<le> length s" .
  }
  assume "i + 1 + n < length s \<and> plenty n al"
  then have k: "(i + 1) + n < length s" and p: "plenty (n + 0) al"
    by simp_all
  from walk_plenty [OF wf_set_shape [OF assms(1) c] k [unfolded n_def] p [unfolded n_def]]
  obtain t' al' where "addutf_walk n (S ! ?c) s (i + 1) al = Some (Some (i + 1 + n + 1), t', al')"
    by (auto simp: n_def)
  with assms(2,3) c show "\<exists>S' al'. addutf S s i al = Some (Some (i + 1 + (n + 1)), S', al')"
    by (simp add: addutf_def rd_def Let_def n_def wf_set_length [OF assms(1)]
        del: addutf_walk.simps)
qed

theorem addutf_leading_byte_witness:
  "clo6 ! (unat ([0xE2 :: byte, 0x82, 0xAC] ! 0) mod 64)
     = leading_ones6 (unat ([0xE2 :: byte, 0x82, 0xAC] ! 0) mod 64)
   \<and> (\<exists>S' al'. addutf zero_block [0xE2, 0x82, 0xAC] 0 [True] = Some (Some 3, S', al'))"
proof -
  let ?s = "[0xE2 :: byte, 0x82, 0xAC]"
  let ?n = "clo6 ! (unat (?s ! 0) mod 64)"
  have h: "0 < length ?s" "0xC0 \<le> ?s ! 0"
    by simp_all
  have p: "0 + 1 + ?n < length ?s \<and> plenty ?n [True]"
    by (simp add: clo6_def plenty_def)
  have e: "0 + 1 + (?n + 1) = 3"
    by (simp add: clo6_def)
  note T = addutf_leading_byte [OF wf_zero_block h, of "[True]"]
  from T have "?n = leading_ones6 (unat (?s ! 0) mod 64)"
    by (rule conjunct1)
  moreover from T p
  have "\<exists>S' al'. addutf zero_block ?s 0 [True] = Some (Some (0 + 1 + (?n + 1)), S', al')"
    by blast
  then have "\<exists>S' al'. addutf zero_block ?s 0 [True] = Some (Some 3, S', al')"
    by (simp only: e)
  ultimately show ?thesis
    by (rule conjI)
qed

text \<open>
  C7. Inserting the same encoding a second time succeeds, whatever the allocator does,
  returns the same cursor and leaves the set exactly as the first insertion left it: the
  output of \<open>foreach\<close> is that after one insertion, with no duplicate visit.
\<close>

theorem addutf_idempotent:
  assumes "addutf S s i al = Some (Some j, S', al')"
  shows "\<exists>S''. addutf S' s i al2 = Some (Some j, S'', al2) \<and> S'' = S'
           \<and> foreach S'' fcn w = foreach S' fcn w"
  using addutf_idem [OF assms] by simp

theorem addutf_idempotent_witness:
  "\<exists>S' S''. addutf zero_block [0xC3, 0xA9] 0 [] = Some (Some 2, S', [])
      \<and> addutf S' [0xC3, 0xA9] 0 [] = Some (Some 2, S'', []) \<and> S'' = S'
      \<and> visits S'' = visits S'"
proof -
  have "\<exists>S'. addutf zero_block [0xC3, 0xA9] 0 [] = Some (Some 2, S', [])"
    by (simp add: addutf_def rd_def clo6_def zero_block_def Let_def)
  then obtain S' where 1: "addutf zero_block [0xC3, 0xA9] 0 [] = Some (Some 2, S', [])"
    by blast
  from addutf_idempotent [OF 1, of "[]" record_visit "[]"] 1 show ?thesis
    by (auto simp: visits_def)
qed

text \<open>
  C8. \<open>foreach\<close> never writes to the memory and never allocates: whatever the memory holds
  and whatever the callback does, every change of the state of the machine during a call of
  \<open>foreach\<close> is made by a call of the callback. So with any callback that leaves the memory
  and the allocator alone, the memory (the set with it) and the allocator are after the call
  what they were before. And \<open>foreach\<close> cannot fail: when the memory holds a set at the
  address it is given, it returns, having called the callback on the members of the set in
  order, as \<open>foreach\<close> on the data model does. Every well-formed set of the data model is
  held by some memory, the one that lays it out.
\<close>

theorem foreach_reads_only:
  fixes fcn :: "rune \<Rightarrow> 'w machine \<Rightarrow> 'w machine"
  shows "(\<forall>\<sigma>'. foreach_mem a fcn \<sigma> = Some \<sigma>' \<longrightarrow> (\<exists>rs. \<sigma>' = fold fcn rs \<sigma>))
       \<and> ((\<forall>r \<tau>. memory (fcn r \<tau>) = memory \<tau> \<and> allocator (fcn r \<tau>) = allocator \<tau>) \<longrightarrow>
            (\<forall>\<sigma>'. foreach_mem a fcn \<sigma> = Some \<sigma>' \<longrightarrow>
               memory \<sigma>' = memory \<sigma> \<and> allocator \<sigma>' = allocator \<sigma>)
            \<and> (\<forall>S. repr_set (memory \<sigma>) a S \<longrightarrow>
                  foreach_mem a fcn \<sigma> = Some (fold fcn (map of_nat (members S)) \<sigma>)
                  \<and> foreach S fcn \<sigma> = foreach_mem a fcn \<sigma>))
       \<and> (\<forall>S. wf_set S \<longrightarrow> repr_set (tree_memory S) 1 S)"
proof (intro conjI impI allI)
  fix \<sigma>' assume "foreach_mem a fcn \<sigma> = Some \<sigma>'"
  then show "\<exists>rs. \<sigma>' = fold fcn rs \<sigma>"
    by (rule foreach_mem_trace)
next
  fix \<sigma>'
  assume fr: "\<forall>r \<tau>. memory (fcn r \<tau>) = memory \<tau> \<and> allocator (fcn r \<tau>) = allocator \<tau>"
    and "foreach_mem a fcn \<sigma> = Some \<sigma>'"
  from foreach_mem_trace [OF this(2)] obtain rs where "\<sigma>' = fold fcn rs \<sigma>"
    by blast
  with fold_frame [of fcn rs \<sigma>] fr
  show "memory \<sigma>' = memory \<sigma>" "allocator \<sigma>' = allocator \<sigma>"
    by simp_all
next
  fix S
  assume fr: "\<forall>r \<tau>. memory (fcn r \<tau>) = memory \<tau> \<and> allocator (fcn r \<tau>) = allocator \<tau>"
    and rp: "repr_set (memory \<sigma>) a S"
  from fr have "\<And>r \<tau>. memory (fcn r \<tau>) = memory \<tau>"
    by simp
  from foreach_mem_repr [OF this rp] foreach_members [OF repr_set_wf [OF rp], of fcn \<sigma>]
  show "foreach_mem a fcn \<sigma> = Some (fold fcn (map of_nat (members S)) \<sigma>)"
    and "foreach S fcn \<sigma> = foreach_mem a fcn \<sigma>"
    by simp_all
next
  fix S
  assume "wf_set S"
  then show "repr_set (tree_memory S) 1 S"
    by (rule repr_set_tree_memory)
qed

theorem foreach_reads_only_witness:
  "foreach_mem 0x1000 (\<lambda>r \<sigma>. \<sigma>\<lparr>world := world \<sigma> @ [r]\<rparr>)
     \<lparr>memory = example_memory, allocator = [True], world = []\<rparr>
   = Some \<lparr>memory = example_memory, allocator = [True], world = [0x41, 0x20AC]\<rparr>
   \<and> foreach_mem 1 (\<lambda>r \<sigma>. \<sigma>\<lparr>world := world \<sigma> @ [r]\<rparr>)
       \<lparr>memory = tree_memory example_set, allocator = [True], world = []\<rparr>
     = Some \<lparr>memory = tree_memory example_set, allocator = [True], world = [0x41, 0x20AC]\<rparr>"
proof -
  let ?f = "\<lambda>r (\<sigma> :: rune list machine). \<sigma>\<lparr>world := world \<sigma> @ [r]\<rparr>"
  let ?\<sigma> = "\<lparr>memory = example_memory, allocator = [True], world = [] :: rune list\<rparr>"
  let ?\<tau> = "\<lparr>memory = tree_memory example_set, allocator = [True], world = [] :: rune list\<rparr>"
  have fr: "\<forall>r \<tau>. memory (?f r \<tau>) = memory \<tau> \<and> allocator (?f r \<tau>) = allocator \<tau>"
    by simp
  have "repr_set example_memory 0x1000 example_set"
    by code_simp
  then have rp: "repr_set (memory ?\<sigma>) 0x1000 example_set"
    by simp
  have mb: "members example_set = [0x41, 0x20AC]"
    by code_simp
  have wf: "wf_set example_set"
    by code_simp
  from foreach_reads_only [of "0x1000" ?f ?\<sigma>] fr rp
  have 1: "foreach_mem 0x1000 ?f ?\<sigma> = Some (fold ?f (map of_nat (members example_set)) ?\<sigma>)"
    by blast
  from foreach_reads_only [of 1 ?f ?\<tau>] wf
  have "repr_set (tree_memory example_set) 1 example_set"
    by blast
  then have rp': "repr_set (memory ?\<tau>) 1 example_set"
    by simp
  from foreach_reads_only [of 1 ?f ?\<tau>] fr rp'
  have 2: "foreach_mem 1 ?f ?\<tau> = Some (fold ?f (map of_nat (members example_set)) ?\<tau>)"
    by blast
  from 1 2 show ?thesis
    by (simp add: mb)
qed

text \<open>
  C9. \<open>prunes\<close> on the UTF-8 bytes of the four runes U+0061, U+00E9, U+20AC and U+1D508,
  followed by the terminating zero byte, with an allocator whose next three allocations
  succeed, returns 0 after calling the callback exactly four times, with the arguments
  0x61, 0xE9, 0x20AC and 0x1D508 in that order.
\<close>

theorem prunes_four_runes:
  assumes "plenty 3 al"
  shows "prunes [0x61, 0xC3, 0xA9, 0xE2, 0x82, 0xAC, 0xF0, 0x9D, 0x94, 0x88, 0x00] al
       = Some (0, [0x61, 0xE9, 0x20AC, 0x1D508])"
proof -
  let ?rs = "[0x61, 0xE9, 0x20AC, 0x1D508] :: rune list"
  have e: "utf8_encode 0x61 = [0x61]" "utf8_encode 0xE9 = [0xC3, 0xA9]"
    "utf8_encode 0x20AC = [0xE2, 0x82, 0xAC]" "utf8_encode 0x1D508 = [0xF0, 0x9D, 0x94, 0x88]"
    by (simp_all add: utf8_encode_def cont_def)
  have r: "\<forall>r\<in>set ?rs. r \<noteq> 0 \<and> unat r < 0x80000000"
    by simp
  from assms have p: "plenty (sum_list (map blocks_needed ?rs)) al"
    by (simp add: blocks_needed_def e numeral_3_eq_3)
  have "sorted ?rs" "distinct ?rs"
    by simp_all
  then have "sorted_list_of_set (set ?rs) = ?rs"
    by (rule sorted_list_of_set.idem_if_sorted_distinct)
  with prunes_runes [OF r p] show ?thesis
    by (simp add: e)
qed

theorem prunes_four_runes_witness:
  "prunes [0x61, 0xC3, 0xA9, 0xE2, 0x82, 0xAC, 0xF0, 0x9D, 0x94, 0x88, 0x00] [True, True, True]
     = Some (0, [0x61, 0xE9, 0x20AC, 0x1D508])"
proof -
  have "plenty 3 [True, True, True]"
    by (simp add: plenty_def)
  from prunes_four_runes [OF this] show ?thesis .
qed

text \<open>
  C10. If \<open>addutf\<close> returns \<^verbatim>\<open>NULL\<close> on a well-formed set, in particular when an allocation
  fails partway through the descent, the set stays well formed and no member was added: the
  blocks allocated before the failure hold no set bit, below every child of the root the
  members are what they were, and \<open>foreach\<close> does with every callback what it did before
  the call.
\<close>

theorem addutf_out_of_memory:
  assumes "wf_set S" and "addutf S s i al = Some (None, S', al')"
  shows "wf_set S' \<and> (\<forall>c. root_elems S' c = root_elems S c) \<and> members S' = members S
       \<and> foreach S' fcn w = foreach S fcn w"
proof -
  from addutf_failure [OF assms(2,1)] have wf': "wf_set S'"
    and re: "\<And>c. root_elems S' c = root_elems S c"
    by blast+
  from re have "root_elems S' = root_elems S"
    by (intro ext)
  then have "members S' = members S"
    by (simp add: members_def)
  with wf' re show ?thesis
    by (simp add: foreach_members assms(1))
qed

theorem addutf_out_of_memory_witness:
  "addutf zero_block [0xF0, 0x9D, 0x94, 0x88] 0 [True]
     = Some (None, zero_block[48 := Ptr zero_block], [])
   \<and> zero_block[48 := Ptr zero_block] \<noteq> zero_block
   \<and> visits (zero_block[48 := Ptr zero_block]) = visits zero_block"
proof -
  have A: "addutf zero_block [0xF0, 0x9D, 0x94, 0x88] 0 [True]
     = Some (None, zero_block[48 := Ptr zero_block], [])"
    by code_simp
  have "zero_block[48 := Ptr zero_block] ! 48 \<noteq> zero_block ! 48"
    by (simp add: zero_block_def)
  then have "zero_block[48 := Ptr zero_block] \<noteq> zero_block"
    by metis
  with addutf_out_of_memory [OF wf_zero_block A, of record_visit "[]"] A show ?thesis
    by (simp add: visits_def)
qed

end
